theory Spec2Isabelle
  imports Main "HOL-Library.Char_ord"
begin

section \<open>Strings\<close>

text \<open>
  A JavaScript string is a sequence of UTF-16 code units; it is modelled as a \<open>string\<close>,
  a list of 8-bit characters, which are the code units 0 to 255 (the Latin-1 range). On
  these code units:
  \<^item> \<open>\d\<close> is \<open>0\<close>..\<open>9\<close>, and \<open>[a-z]\<close> and \<open>[A-Z]\<close> are the ASCII letters;
  \<^item> the white space of \<open>\s\<close> and of \<open>trim\<close> is tab, line feed, vertical tab, form
    feed, carriage return, space and the no-break space U+00A0;
  \<^item> \<open>toLowerCase\<close> maps \<open>A\<close>..\<open>Z\<close> and the capital letters U+00C0..U+00DE (all of
    that range but the multiplication sign U+00D7) to the code unit 32 places later, and
    leaves every other code unit alone.
\<close>

definition is_digit :: "char \<Rightarrow> bool" where
  "is_digit c \<longleftrightarrow> CHR ''0'' \<le> c \<and> c \<le> CHR ''9''"

definition is_lower :: "char \<Rightarrow> bool" where
  "is_lower c \<longleftrightarrow> CHR ''a'' \<le> c \<and> c \<le> CHR ''z''"

definition is_upper :: "char \<Rightarrow> bool" where
  "is_upper c \<longleftrightarrow> CHR ''A'' \<le> c \<and> c \<le> CHR ''Z''"

definition is_space :: "char \<Rightarrow> bool" where
  "is_space c \<longleftrightarrow> c \<in> set [CHR 0x09, CHR 0x0A, CHR 0x0B, CHR 0x0C, CHR 0x0D, CHR 0x20, CHR 0xA0]"

definition is_upper_latin :: "char \<Rightarrow> bool" where
  "is_upper_latin c \<longleftrightarrow> CHR 0xC0 \<le> c \<and> c \<le> CHR 0xDE \<and> c \<noteq> CHR 0xD7"

definition lower_char :: "char \<Rightarrow> char" where
  "lower_char c = (if is_upper c \<or> is_upper_latin c then char_of (of_char c + (32::nat)) else c)"

definition toLowerCase :: "string \<Rightarrow> string" where
  "toLowerCase s = map lower_char s"

definition trim :: "string \<Rightarrow> string" where
  "trim s = rev (dropWhile is_space (rev (dropWhile is_space s)))"

text \<open>\<open>s.padStart(n, c)\<close> for a one-character filler.\<close>

definition padStart :: "nat \<Rightarrow> char \<Rightarrow> string \<Rightarrow> string" where
  "padStart n c s = replicate (n - length s) c @ s"

definition digit_char :: "nat \<Rightarrow> char" where
  "digit_char d = char_of (48 + d)"

definition digit_val :: "char \<Rightarrow> nat" where
  "digit_val c = of_char c - 48"

text \<open>\<open>String(n)\<close> for an integer \<open>n\<close>: its decimal numeral.\<close>

function String_nat :: "nat \<Rightarrow> string" where
  "String_nat n = (if n < 10 then [digit_char n] else String_nat (n div 10) @ [digit_char (n mod 10)])"
  by pat_completeness auto
termination
  by (relation "measure id") auto

declare String_nat.simps [simp del]

definition String_of :: "int \<Rightarrow> string" where
  "String_of i = (if i < 0 then CHR ''-'' # String_nat (nat (- i)) else String_nat (nat i))"

text \<open>The value of a string of decimal digits, most significant digit first.\<close>

definition dec :: "string \<Rightarrow> nat" where
  "dec s = foldl (\<lambda>a c. 10 * a + digit_val c) 0 s"

text \<open>
  \<open>parseInt(s, 10)\<close> on a string that starts with a digit or is empty (the callers pass
  captures of \<open>\d{1,2}\<close> and \<open>\d{2}\<close>): the value of the leading digits, and \<open>NaN\<close>
  (\<open>None\<close>) when there is none.
\<close>

definition parseInt :: "string \<Rightarrow> int option" where
  "parseInt s = (if takeWhile is_digit s = [] then None else Some (int (dec (takeWhile is_digit s))))"

section \<open>Regular expressions\<close>

text \<open>
  The regular expressions of the source are terms of \<open>rx\<close>, run by a backtracking
  matcher. \<open>rx_match r pos s\<close> lists every way \<open>r\<close> matches a prefix of \<open>s\<close>, where
  \<open>s\<close> is the input from index \<open>pos\<close> on: the number of characters consumed and the
  texts of the capture groups, in the order in which a backtracking engine tries them
  (greedy repetition first the longest, an alternative first the left branch). The head
  of the list is the match the engine reports.
  \<open>Rep p lo hi\<close> is a character class repeated \<open>lo\<close> to \<open>hi\<close> times (\<open>None\<close>: no
  upper bound), \<open>Bol\<close> and \<open>Eol\<close> are \<open>^\<close> and \<open>$\<close> without the multiline flag.
\<close>

datatype rx =
    Bol
  | Eol
  | Eps
  | Lit string
  | Rep "char \<Rightarrow> bool" nat "nat option"
  | Seq rx rx
  | Alt rx rx
  | Grp rx

primrec rx_match :: "rx \<Rightarrow> nat \<Rightarrow> string \<Rightarrow> (nat \<times> string list) list" where
  "rx_match Bol pos s = (if pos = 0 then [(0, [])] else [])"
| "rx_match Eol pos s = (if s = [] then [(0, [])] else [])"
| "rx_match Eps pos s = [(0, [])]"
| "rx_match (Lit w) pos s = (if take (length w) s = w then [(length w, [])] else [])"
| "rx_match (Rep p lo hi) pos s =
     (let n = length (takeWhile p s);
          m = (case hi of None \<Rightarrow> n | Some h \<Rightarrow> min h n)
      in map (\<lambda>k. (k, [])) (rev [lo..<Suc m]))"
| "rx_match (Seq a b) pos s =
     concat (map (\<lambda>(n, cs). map (\<lambda>(n', cs'). (n + n', cs @ cs'))
                                 (rx_match b (pos + n) (drop n s)))
                 (rx_match a pos s))"
| "rx_match (Alt a b) pos s = rx_match a pos s @ rx_match b pos s"
| "rx_match (Grp a) pos s = map (\<lambda>(n, cs). (n, take n s # cs)) (rx_match a pos s)"

text \<open>
  \<open>s.match(r)\<close> for a regular expression without the global flag: the first index
  from which \<open>r\<close> matches, and there the whole match followed by the capture groups;
  \<open>None\<close> is \<open>null\<close>.
\<close>

fun rx_exec :: "rx \<Rightarrow> nat \<Rightarrow> string \<Rightarrow> string list option" where
  "rx_exec r pos s =
     (case rx_match r pos s of
        (n, cs) # _ \<Rightarrow> Some (take n s # cs)
      | [] \<Rightarrow> (case s of [] \<Rightarrow> None | c # s' \<Rightarrow> rx_exec r (Suc pos) s'))"

declare rx_exec.simps [simp del]

definition str_match :: "string \<Rightarrow> rx \<Rightarrow> string list option" where
  "str_match s r = rx_exec r 0 s"

text \<open>
  \<open>s.replace(r, rep)\<close> for a regular expression with the global flag and a replacement
  without \<open>$\<close> patterns: scanning from the left, each match is replaced by \<open>rep\<close> and
  the scan goes on after it; after an empty match the next character is copied.
\<close>

function replace_all :: "rx \<Rightarrow> string \<Rightarrow> nat \<Rightarrow> string \<Rightarrow> string" where
  "replace_all r rep pos s =
     (case rx_match r pos s of
        (n, cs) # _ \<Rightarrow>
          (if n = 0
           then (case s of [] \<Rightarrow> rep | c # s' \<Rightarrow> rep @ c # replace_all r rep (Suc pos) s')
           else rep @ replace_all r rep (pos + n) (drop n s))
      | [] \<Rightarrow> (case s of [] \<Rightarrow> [] | c # s' \<Rightarrow> c # replace_all r rep (Suc pos) s'))"
  by pat_completeness auto
termination
proof (relation "measure (\<lambda>(r, rep, pos, s). length s)")
  have bound: "(n, cs) \<in> set (rx_match r pos s) \<Longrightarrow> n \<le> length s" for r pos s n cs
  proof (induction r arbitrary: n cs pos s)
    case (Lit w)
    then have "take (length w) s = w" "n = length w" by (auto split: if_splits)
    then have "length (take n s) = n" by simp
    then show ?case by simp
  next
    case (Rep p lo hi)
    then show ?case
      using length_takeWhile_le [of p s]
      by (auto simp: Let_def split: option.splits)
  next
    case (Seq a b)
    then show ?case by fastforce
  qed (auto split: if_splits)
  fix r rep pos s x xs n cs
  assume "rx_match r pos s = x # xs" "(n, cs) = x" "n \<noteq> 0"
  then have "(n, cs) \<in> set (rx_match r pos s)" by simp
  then have "n \<le> length s" by (rule bound)
  with \<open>n \<noteq> 0\<close> show "((r, rep, pos + n, drop n s), r, rep, pos, s) \<in> measure (\<lambda>(r, rep, pos, s). length s)"
    by simp
qed simp_all

declare replace_all.simps [simp del]

definition str_replace_all :: "string \<Rightarrow> rx \<Rightarrow> string \<Rightarrow> string" where
  "str_replace_all s r rep = replace_all r rep 0 s"

section \<open>Slug derivation\<close>

abbreviation hy :: "char \<Rightarrow> bool" where
  "hy \<equiv> (\<lambda>c. c = CHR ''-'')"

text \<open>\<^verbatim>\<open>/[^a-z0-9]+/g\<close>\<close>

definition non_alnum_rx :: rx where
  "non_alnum_rx = Rep (\<lambda>c. \<not> (is_lower c \<or> is_digit c)) 1 None"

text \<open>\<^verbatim>\<open>/^-+|-+$/g\<close>\<close>

definition strip_rx :: rx where
  "strip_rx = Alt (Seq Bol (Rep hy 1 None)) (Seq (Rep hy 1 None) Eol)"

text \<open>\<^verbatim>\<open>/--+/g\<close>\<close>

definition squeeze_rx :: rx where
  "squeeze_rx = Seq (Lit ''-'') (Rep hy 1 None)"

definition slugify :: "string \<Rightarrow> string" where
  "slugify input =
     str_replace_all
       (str_replace_all
          (str_replace_all (trim (toLowerCase input)) non_alnum_rx ''-'')
          strip_rx '''')
       squeeze_rx ''-''"

text \<open>A string with two hyphens in a row.\<close>

definition doubled :: "string \<Rightarrow> bool" where
  "doubled s = (\<exists>u v. s = u @ ''--'' @ v)"

section \<open>Errors\<close>

text \<open>The fields of an event (\<open>IEvent\<close>), as keys of a document.\<close>

datatype key =
    Title | Slug | Description | Overview | Image | Venue | Location
  | Date | Time | Mode | Audience | Agenda | Organizer | Tags

text \<open>
  Every \<open>throw\<close> of the source and every failure of the platform it relies on is an
  \<open>error\<close>; a function that may throw returns \<open>error + 'a\<close>.
  \<^item> \<open>InvalidDateFormat\<close>, \<open>InvalidTimeValue\<close>, \<open>InvalidTimeHour\<close>,
    \<open>InvalidTimeFormat\<close>: the errors of \<open>normalizeDate\<close> and \<open>normalizeTime\<close>;
  \<^item> \<open>FieldRequired k\<close>, \<open>AgendaRequired\<close>, \<open>TagsRequired\<close>: the errors of the
    pre-save hook's checks;
  \<^item> \<open>TypeError\<close>: a string method called on a value that is not a string;
  \<^item> \<open>ValidationError ks\<close>: the schema validation failed on the set of paths \<open>ks\<close>;
  \<^item> \<open>DuplicateKey\<close>: the unique index on \<open>slug\<close> rejected an insert;
  \<^item> \<open>StrictPopulateError\<close>: a query was asked to populate a path that the schema does
    not have;
  \<^item> \<open>ConnectionError\<close>, \<open>QueryError\<close>, \<open>BodyError\<close>: the database connection, a
    query, or the parsing of a request body failed;
  \<^item> \<open>MissingEnvironmentVariable\<close>: \<open>MONGODB_URI\<close> is not set.
\<close>

datatype error =
    InvalidDateFormat
  | InvalidTimeValue
  | InvalidTimeHour
  | InvalidTimeFormat
  | FieldRequired key
  | AgendaRequired
  | TagsRequired
  | TypeError
  | ValidationError "key set"
  | DuplicateKey
  | StrictPopulateError
  | ConnectionError
  | QueryError
  | BodyError
  | MissingEnvironmentVariable

section \<open>Time normalization\<close>

text \<open>\<^verbatim>\<open>/^(\d{1,2}):(\d{2})(?::\d{2})?$/\<close>\<close>

definition colon_rx :: rx where
  "colon_rx =
     Seq Bol (Seq (Grp (Rep is_digit 1 (Some 2))) (Seq (Lit '':'') (Seq (Grp (Rep is_digit 2 (Some 2)))
       (Seq (Alt (Seq (Lit '':'') (Rep is_digit 2 (Some 2))) Eps) Eol))))"

text \<open>\<^verbatim>\<open>/^(\d{1,2})\s*(am|pm)$/\<close>\<close>

definition ampm_ws_rx :: rx where
  "ampm_ws_rx =
     Seq Bol (Seq (Grp (Rep is_digit 1 (Some 2))) (Seq (Rep is_space 0 None)
       (Seq (Grp (Alt (Lit ''am'') (Lit ''pm''))) Eol)))"

text \<open>\<^verbatim>\<open>/^(\d{1,2})(am|pm)$/\<close>\<close>

definition ampm_rx :: rx where
  "ampm_rx =
     Seq Bol (Seq (Grp (Rep is_digit 1 (Some 2))) (Seq (Grp (Alt (Lit ''am'') (Lit ''pm''))) Eol))"

text \<open>\<open>v.match(/^(\d{1,2})\s*(am|pm)$/) || v.match(/^(\d{1,2})(am|pm)$/)\<close>\<close>

definition ampm_match :: "string \<Rightarrow> string list option" where
  "ampm_match v = (case str_match v ampm_ws_rx of Some a \<Rightarrow> Some a | None \<Rightarrow> str_match v ampm_rx)"

text \<open>\<open>String(h).padStart(2, '0')\<close>, where \<open>h\<close> may be \<open>NaN\<close>.\<close>

definition pad2 :: "int option \<Rightarrow> string" where
  "pad2 h = padStart 2 (CHR ''0'') (case h of None \<Rightarrow> ''NaN'' | Some i \<Rightarrow> String_of i)"

text \<open>
  The comparisons of the source are false on \<open>NaN\<close>, so a \<open>NaN\<close> hour or minute passes
  the range checks; \<open>NaN !== 12\<close> is true and \<open>NaN + 12\<close> is \<open>NaN\<close>.
\<close>

definition out_of :: "int \<Rightarrow> int \<Rightarrow> int option \<Rightarrow> bool" where
  "out_of lo hi h = (case h of None \<Rightarrow> False | Some i \<Rightarrow> i < lo \<or> i > hi)"

definition normalizeTime :: "string \<Rightarrow> error + string" where
  "normalizeTime input =
     (let v = toLowerCase (trim input) in
      case str_match v colon_rx of
        Some colon \<Rightarrow>
          (let h = parseInt (colon ! 1); m = parseInt (colon ! 2) in
           if out_of 0 23 h \<or> out_of 0 59 m then Inl InvalidTimeValue
           else Inr (pad2 h @ '':'' @ pad2 m))
      | None \<Rightarrow>
          (case ampm_match v of
             Some ampm \<Rightarrow>
               (let h = parseInt (ampm ! 1); suffix = ampm ! 2 in
                if out_of 1 12 h then Inl InvalidTimeHour
                else
                  (let h1 = (if suffix = ''pm'' \<and> h \<noteq> Some 12 then map_option (\<lambda>i. i + 12) h else h);
                       h2 = (if suffix = ''am'' \<and> h1 = Some 12 then Some 0 else h1)
                   in Inr (pad2 h2 @ '':00'')))
           | None \<Rightarrow> Inl InvalidTimeFormat))"

text \<open>The three patterns without their leading \<open>^\<close>.\<close>

definition colon_body :: rx where
  "colon_body = Seq (Grp (Rep is_digit 1 (Some 2))) (Seq (Lit '':'') (Seq (Grp (Rep is_digit 2 (Some 2)))
       (Seq (Alt (Seq (Lit '':'') (Rep is_digit 2 (Some 2))) Eps) Eol)))"

definition ampm_ws_body :: rx where
  "ampm_ws_body = Seq (Grp (Rep is_digit 1 (Some 2))) (Seq (Rep is_space 0 None)
       (Seq (Grp (Alt (Lit ''am'') (Lit ''pm''))) Eol))"

definition ampm_body :: rx where
  "ampm_body = Seq (Grp (Rep is_digit 1 (Some 2))) (Seq (Grp (Alt (Lit ''am'') (Lit ''pm''))) Eol)"

text \<open>
  The input shapes of the specification, stated on the trimmed, lowercased input \<open>v\<close>
  without reference to the matcher: \<open>H:MM\<close>, \<open>HH:MM\<close> or \<open>HH:MM:SS\<close> with hour
  digits \<open>hh\<close> and minute digits \<open>mm\<close>; and \<open>H\<close> or \<open>HH\<close>, optional white space,
  then \<open>am\<close> or \<open>pm\<close>. \<open>two_digits n\<close> is the zero-padded two-digit numeral of \<open>n\<close>.
\<close>

definition digits :: "string \<Rightarrow> bool" where
  "digits s \<longleftrightarrow> (\<forall>c\<in>set s. is_digit c)"

definition is_colon_form :: "string \<Rightarrow> string \<Rightarrow> string \<Rightarrow> bool" where
  "is_colon_form v hh mm \<longleftrightarrow>
     digits hh \<and> (length hh = 1 \<or> length hh = 2) \<and> digits mm \<and> length mm = 2 \<and>
     (v = hh @ '':'' @ mm \<or> (\<exists>ss. digits ss \<and> length ss = 2 \<and> v = hh @ '':'' @ mm @ '':'' @ ss))"

definition is_ampm_form :: "string \<Rightarrow> string \<Rightarrow> string \<Rightarrow> bool" where
  "is_ampm_form v hh suffix \<longleftrightarrow>
     digits hh \<and> (length hh = 1 \<or> length hh = 2) \<and> (suffix = ''am'' \<or> suffix = ''pm'') \<and>
     (\<exists>ws. (\<forall>c\<in>set ws. is_space c) \<and> v = hh @ ws @ suffix)"

definition two_digits :: "nat \<Rightarrow> string" where
  "two_digits n = [digit_char (n div 10), digit_char (n mod 10)]"

section \<open>Date normalization\<close>

text \<open>
  A \<open>Date\<close> holds a time value: the milliseconds since 1970-01-01T00:00:00Z, or \<open>NaN\<close>
  (\<open>None\<close>) for an invalid date. \<open>getUTCFullYear\<close>, \<open>getUTCMonth\<close> (0-indexed) and
  \<open>getUTCDate\<close> read the proleptic Gregorian calendar date of the day the time value
  falls in; \<open>civil_from_days\<close> computes it from the day number.
\<close>

definition msPerDay :: int where
  "msPerDay = 86400000"

definition Day :: "int \<Rightarrow> int" where
  "Day t = t div msPerDay"

definition civil_from_days :: "int \<Rightarrow> int \<times> int \<times> int" where
  "civil_from_days d =
     (let z = d + 719468;
          era = z div 146097;
          doe = z - era * 146097;
          yoe = (doe - doe div 1460 + doe div 36524 - doe div 146096) div 365;
          y = yoe + era * 400;
          doy = doe - (365 * yoe + yoe div 4 - yoe div 100);
          mp = (5 * doy + 2) div 153;
          dd = doy - (153 * mp + 2) div 5 + 1;
          m = (if mp < 10 then mp + 3 else mp - 9)
      in (if m \<le> 2 then y + 1 else y, m, dd))"

definition getUTCFullYear :: "int \<Rightarrow> int" where
  "getUTCFullYear t = fst (civil_from_days (Day t))"

definition getUTCMonth :: "int \<Rightarrow> int" where
  "getUTCMonth t = fst (snd (civil_from_days (Day t))) - 1"

definition getUTCDate :: "int \<Rightarrow> int" where
  "getUTCDate t = snd (snd (civil_from_days (Day t)))"

text \<open>
  \<open>normalizeDate\<close>. The parser behind \<open>new Date(string)\<close> belongs to the host engine, so
  it is a parameter: \<open>Date_parse s\<close> is the time value the engine gives the string
  \<open>s\<close>, or \<open>None\<close> when the date is invalid.
\<close>

definition normalizeDate :: "(string \<Rightarrow> int option) \<Rightarrow> string \<Rightarrow> error + string" where
  "normalizeDate Date_parse input =
     (let trimmed = trim input in
      case Date_parse trimmed of
        None \<Rightarrow> Inl InvalidDateFormat
      | Some t \<Rightarrow>
          (let year = getUTCFullYear t;
               month = padStart 2 (CHR ''0'') (String_of (getUTCMonth t + 1));
               day = padStart 2 (CHR ''0'') (String_of (getUTCDate t))
           in Inr (String_of year @ ''-'' @ month @ ''-'' @ day)))"

text \<open>
  The parser of V8, the engine of Node.js, on the three date forms the specification
  quotes, for a host whose local time zone is \<open>tz\<close> minutes east of UTC all year.
  ECMA-262 reads the date-only ISO form \<open>YYYY-MM-DD\<close> as midnight UTC; the forms
  outside the ISO format are left to the engine, and V8 reads \<open>YYYY/MM/DD\<close> and
  \<open>Month D, YYYY\<close> (the full English month name) as midnight local time. V8 takes a
  month from 1 to 12 and a day from 1 to 31, and a day past the end of the month counts
  on into the next month (\<open>days_from_civil\<close> is linear in the day). The engine reads
  many more forms; \<open>engine_Date_parse\<close> covers these three only, and its \<open>None\<close> on a
  string of another form is no statement about the engine unless the engine rejects the
  string too, as it does \<open>not-a-date\<close>. It is applied to the strings of the specification
  only; \<open>normalizeDate\<close> itself takes the parser as a parameter.
\<close>

definition days_from_civil :: "int \<Rightarrow> int \<Rightarrow> int \<Rightarrow> int" where
  "days_from_civil y m d =
     (let y' = (if m \<le> 2 then y - 1 else y);
          era = y' div 400;
          yoe = y' - era * 400;
          doy = (153 * (if m > 2 then m - 3 else m + 9) + 2) div 5 + d - 1;
          doe = yoe * 365 + yoe div 4 - yoe div 100 + doy
      in era * 146097 + doe - 719468)"

definition midnight :: "int \<Rightarrow> int \<Rightarrow> int \<Rightarrow> int option" where
  "midnight y m d =
     (if 1 \<le> m \<and> m \<le> 12 \<and> 1 \<le> d \<and> d \<le> 31
      then Some (days_from_civil y m d * msPerDay) else None)"

definition month_names :: "string list" where
  "month_names = [''January'', ''February'', ''March'', ''April'', ''May'', ''June'', ''July'',
     ''August'', ''September'', ''October'', ''November'', ''December'']"

fun index_of :: "'a \<Rightarrow> 'a list \<Rightarrow> nat option" where
  "index_of x [] = None"
| "index_of x (y # ys) = (if x = y then Some 0 else map_option Suc (index_of x ys))"

definition is_alpha :: "char \<Rightarrow> bool" where
  "is_alpha c \<longleftrightarrow> is_lower c \<or> is_upper c"

text \<open>\<^verbatim>\<open>/^(\d{4})-(\d{2})-(\d{2})$/\<close>, \<^verbatim>\<open>/^(\d{4})\/(\d{2})\/(\d{2})$/\<close> and
  \<^verbatim>\<open>/^([A-Za-z]+) (\d{1,2}), (\d{4})$/\<close>\<close>

definition ymd_rx :: "string \<Rightarrow> rx" where
  "ymd_rx sep =
     Seq Bol (Seq (Grp (Rep is_digit 4 (Some 4))) (Seq (Lit sep) (Seq (Grp (Rep is_digit 2 (Some 2)))
       (Seq (Lit sep) (Seq (Grp (Rep is_digit 2 (Some 2))) Eol)))))"

definition month_day_year_rx :: rx where
  "month_day_year_rx =
     Seq Bol (Seq (Grp (Rep is_alpha 1 None)) (Seq (Lit '' '') (Seq (Grp (Rep is_digit 1 (Some 2)))
       (Seq (Lit '', '') (Seq (Grp (Rep is_digit 4 (Some 4))) Eol)))))"

definition engine_Date_parse :: "int \<Rightarrow> string \<Rightarrow> int option" where
  "engine_Date_parse tz s =
     (case str_match s (ymd_rx ''-'') of
        Some g \<Rightarrow> midnight (int (dec (g ! 1))) (int (dec (g ! 2))) (int (dec (g ! 3)))
      | None \<Rightarrow>
     (case str_match s (ymd_rx ''/'') of
        Some g \<Rightarrow>
          map_option (\<lambda>t. t - tz * 60000)
            (midnight (int (dec (g ! 1))) (int (dec (g ! 2))) (int (dec (g ! 3))))
      | None \<Rightarrow>
     (case str_match s month_day_year_rx of
        Some g \<Rightarrow>
          (case index_of (g ! 1) month_names of
             Some k \<Rightarrow>
               map_option (\<lambda>t. t - tz * 60000)
                 (midnight (int (dec (g ! 3))) (int k + 1) (int (dec (g ! 2))))
           | None \<Rightarrow> None)
      | None \<Rightarrow> None)))"

section \<open>Event documents and the pre-save hook\<close>

text \<open>
  A document is a JavaScript object: each field is absent (\<open>undefined\<close>, here \<open>None\<close>),
  a string or an array of strings. \<open>modified\<close> is the set of paths for which
  \<open>isModified\<close> answers true.
\<close>

datatype jsval = Str string | Arr "string list"

record document =
  props :: "key \<Rightarrow> jsval option"
  modified :: "key set"

definition assign :: "key \<Rightarrow> jsval \<Rightarrow> document \<Rightarrow> document" where
  "assign k v d = d\<lparr>props := (props d)(k := Some v), modified := insert k (modified d)\<rparr>"

text \<open>\<open>!v\<close>: \<open>undefined\<close> and the empty string are falsy, an array is truthy.\<close>

definition falsy :: "jsval option \<Rightarrow> bool" where
  "falsy v = (case v of None \<Rightarrow> True | Some (Str s) \<Rightarrow> s = [] | Some (Arr xs) \<Rightarrow> False)"

text \<open>\<open>xs.map((s) => s.trim()).filter((s) => s.length > 0)\<close>\<close>

definition clean :: "string list \<Rightarrow> string list" where
  "clean xs = filter (\<lambda>s. length s > 0) (map trim xs)"

definition requiredStrings :: "key list" where
  "requiredStrings =
     [Title, Description, Overview, Image, Venue, Location, Date, Time, Mode, Audience, Organizer]"

text \<open>The loop over \<open>requiredStrings\<close>: it throws at the first key whose value is not a
  string or is empty after trimming.\<close>

fun check_required :: "key list \<Rightarrow> (key \<Rightarrow> jsval option) \<Rightarrow> error option" where
  "check_required [] f = None"
| "check_required (k # ks) f =
     (case f k of
        Some (Str s) \<Rightarrow> (if length (trim s) = 0 then Some (FieldRequired k) else check_required ks f)
      | _ \<Rightarrow> Some (FieldRequired k))"

text \<open>The normalizing part of the hook: slug, date, time, then the two arrays.\<close>

definition hook_slug :: "document \<Rightarrow> error + document" where
  "hook_slug d =
     (if Title \<in> modified d \<or> falsy (props d Slug)
      then (case props d Title of
              Some (Str t) \<Rightarrow> Inr (assign Slug (Str (slugify t)) d)
            | _ \<Rightarrow> Inl TypeError)
      else Inr d)"

definition hook_date :: "(string \<Rightarrow> int option) \<Rightarrow> document \<Rightarrow> error + document" where
  "hook_date Date_parse d =
     (if Date \<in> modified d
      then (case props d Date of
              Some (Str s) \<Rightarrow>
                (case normalizeDate Date_parse s of
                   Inl e \<Rightarrow> Inl e
                 | Inr s' \<Rightarrow> Inr (assign Date (Str s') d))
            | _ \<Rightarrow> Inl TypeError)
      else Inr d)"

definition hook_time :: "document \<Rightarrow> error + document" where
  "hook_time d =
     (if Time \<in> modified d
      then (case props d Time of
              Some (Str s) \<Rightarrow>
                (case normalizeTime s of
                   Inl e \<Rightarrow> Inl e
                 | Inr s' \<Rightarrow> Inr (assign Time (Str s') d))
            | _ \<Rightarrow> Inl TypeError)
      else Inr d)"

definition hook_array :: "key \<Rightarrow> document \<Rightarrow> document" where
  "hook_array k d =
     (case props d k of
        Some (Arr xs) \<Rightarrow> assign k (Arr (clean xs)) d
      | _ \<Rightarrow> d)"

definition normalize_doc :: "(string \<Rightarrow> int option) \<Rightarrow> document \<Rightarrow> error + document" where
  "normalize_doc Date_parse d =
     (case hook_slug d of
        Inl e \<Rightarrow> Inl e
      | Inr d1 \<Rightarrow>
     (case hook_date Date_parse d1 of
        Inl e \<Rightarrow> Inl e
      | Inr d2 \<Rightarrow>
     (case hook_time d2 of
        Inl e \<Rightarrow> Inl e
      | Inr d3 \<Rightarrow> Inr (hook_array Tags (hook_array Agenda d3)))))"

text \<open>The checking part: the required strings, then the two arrays.\<close>

definition empty_array :: "jsval option \<Rightarrow> bool" where
  "empty_array v = (case v of Some (Arr xs) \<Rightarrow> length xs = 0 | _ \<Rightarrow> True)"

definition recheck :: "document \<Rightarrow> error + document" where
  "recheck d =
     (case check_required requiredStrings (props d) of
        Some e \<Rightarrow> Inl e
      | None \<Rightarrow>
          (if empty_array (props d Agenda) then Inl AgendaRequired
           else if empty_array (props d Tags) then Inl TagsRequired
           else Inr d))"

text \<open>
  \<open>EventSchema.pre('save', ...)\<close>. The hook's \<open>catch\<close> throws a new error with the
  message of the one caught; an error is identified by its message, so it is passed on
  as it is.
\<close>

definition preSave :: "(string \<Rightarrow> int option) \<Rightarrow> document \<Rightarrow> error + document" where
  "preSave Date_parse d =
     (case normalize_doc Date_parse d of
        Inl e \<Rightarrow> Inl e
      | Inr d' \<Rightarrow> recheck d')"

text \<open>
  The message of an error that leaves the hook. The \<open>catch\<close> of the hook wraps every
  \<open>Error\<close> in a new one with the same message, so the message is that of the error
  thrown inside. The text of a \<open>TypeError\<close> is the engine's and is not modelled, and the
  remaining errors are not thrown inside the hook: \<open>None\<close> for these.
\<close>

definition key_name :: "key \<Rightarrow> string" where
  "key_name k =
     (case k of
        Title \<Rightarrow> ''title'' | Slug \<Rightarrow> ''slug'' | Description \<Rightarrow> ''description''
      | Overview \<Rightarrow> ''overview'' | Image \<Rightarrow> ''image'' | Venue \<Rightarrow> ''venue''
      | Location \<Rightarrow> ''location'' | Date \<Rightarrow> ''date'' | Time \<Rightarrow> ''time'' | Mode \<Rightarrow> ''mode''
      | Audience \<Rightarrow> ''audience'' | Agenda \<Rightarrow> ''agenda'' | Organizer \<Rightarrow> ''organizer''
      | Tags \<Rightarrow> ''tags'')"

definition hook_message :: "error \<Rightarrow> string option" where
  "hook_message e =
     (case e of
        FieldRequired k \<Rightarrow>
          Some (''Field '' @ [CHR 0x22] @ key_name k @ [CHR 0x22] @ '' is required and cannot be empty'')
      | AgendaRequired \<Rightarrow> Some ''Agenda is required and cannot be empty''
      | TagsRequired \<Rightarrow> Some ''Tags are required and cannot be empty''
      | InvalidDateFormat \<Rightarrow> Some ''Invalid date format''
      | InvalidTimeValue \<Rightarrow> Some ''Invalid time value''
      | InvalidTimeHour \<Rightarrow> Some ''Invalid time hour''
      | InvalidTimeFormat \<Rightarrow> Some ''Invalid time format''
      | _ \<Rightarrow> None)"

section \<open>The schema and \<open>Event.create\<close>\<close>

text \<open>
  The schema declares, for every string path but \<open>slug\<close>, \<open>required\<close>, \<open>trim\<close> and
  the validator \<open>nonEmptyString\<close>; for \<open>agenda\<close> and \<open>tags\<close>, \<open>required\<close>, the
  validator \<open>arrayOfNonEmptyStrings\<close> and a setter that trims the elements of an array.
\<close>

definition nonEmptyString :: "jsval option \<Rightarrow> bool" where
  "nonEmptyString v = (case v of Some (Str s) \<Rightarrow> length (trim s) > 0 | _ \<Rightarrow> False)"

definition arrayOfNonEmptyStrings :: "jsval option \<Rightarrow> bool" where
  "arrayOfNonEmptyStrings arr =
     (case arr of
        Some (Arr xs) \<Rightarrow> length xs > 0 \<and> list_all (\<lambda>v. length (trim v) > 0) xs
      | _ \<Rightarrow> False)"

definition string_paths :: "key list" where
  "string_paths =
     [Title, Slug, Description, Overview, Image, Venue, Location, Date, Time, Mode, Audience, Organizer]"

definition schema_paths :: "key list" where
  "schema_paths =
     [Title, Slug, Description, Overview, Image, Venue, Location, Date, Time, Mode, Audience,
      Agenda, Organizer, Tags]"

text \<open>
  \<open>Event.create(data)\<close> is the library's pipeline for a new document, in the order the
  library documents:
  \<^enum> the document is built from \<open>data\<close>: each path present is set through its setters
    (\<open>trim\<close> for a string path, the element-trimming setter for an array path; a single
    string given for an array path becomes a one-element array), an absent array path
    gets its default \<open>[]\<close>, and the paths set are marked modified;
  \<^enum> the schema validation runs; it is registered as the first pre-save hook, so it comes
    before the hook of the source;
  \<^enum> the pre-save hook of the source runs;
  \<^enum> the document is inserted, unless the unique index on \<open>slug\<close> rejects it.
  A failure at any step rejects the save, and that document is not inserted. The
  timestamps and the identifier the library adds are left out. \<open>Event_create\<close> is the
  call on one candidate record.
\<close>

definition apply_setter :: "key \<Rightarrow> jsval \<Rightarrow> jsval" where
  "apply_setter k v =
     (if k \<in> set string_paths
      then (case v of Str s \<Rightarrow> Str (trim s) | Arr xs \<Rightarrow> Arr xs)
      else (case v of Arr xs \<Rightarrow> Arr (map trim xs) | Str s \<Rightarrow> Arr [s]))"

definition construct :: "(key \<Rightarrow> jsval option) \<Rightarrow> document" where
  "construct data =
     \<lparr>props = (\<lambda>k. case data k of
                       Some v \<Rightarrow> Some (apply_setter k v)
                     | None \<Rightarrow> (if k \<in> set string_paths then None else Some (Arr []))),
      modified = set (filter (\<lambda>k. data k \<noteq> None) schema_paths)\<rparr>"

definition path_valid :: "key \<Rightarrow> jsval option \<Rightarrow> bool" where
  "path_valid k v =
     (if k = Slug then (case v of Some (Arr xs) \<Rightarrow> False | _ \<Rightarrow> True)
      else if k \<in> set string_paths then nonEmptyString v
      else arrayOfNonEmptyStrings v)"

definition validate :: "document \<Rightarrow> error + document" where
  "validate d =
     (let bad = filter (\<lambda>k. \<not> path_valid k (props d k)) schema_paths
      in if bad = [] then Inr d else Inl (ValidationError (set bad)))"

text \<open>
  The environment of a request: whether the database can be reached and whether a query
  on it succeeds, whether the unique index on \<open>slug\<close> has been built, and the date
  parser of the engine. The store is the list of the documents of the collection.
\<close>

record env =
  connect_ok :: bool
  query_ok :: bool
  unique_index :: bool
  Date_parse :: "string \<Rightarrow> int option"

type_synonym store = "(key \<Rightarrow> jsval option) list"

definition insert_doc :: "env \<Rightarrow> store \<Rightarrow> document \<Rightarrow> (error + document) \<times> store" where
  "insert_doc w st d =
     (if \<not> query_ok w then (Inl QueryError, st)
      else if unique_index w \<and> props d Slug \<in> set (map (\<lambda>f. f Slug) st) then (Inl DuplicateKey, st)
      else (Inr d, st @ [props d]))"

definition Event_create :: "env \<Rightarrow> store \<Rightarrow> (key \<Rightarrow> jsval option) \<Rightarrow> (error + document) \<times> store" where
  "Event_create w st data =
     (case validate (construct data) of
        Inl e \<Rightarrow> (Inl e, st)
      | Inr d \<Rightarrow>
          (case preSave (Date_parse w) d of
             Inl e \<Rightarrow> (Inl e, st)
           | Inr d' \<Rightarrow> insert_doc w st d'))"

text \<open>
  The handler passes to \<open>Event.create\<close> whatever the body of the request holds, and
  the library tells an array from a single object (\<open>Array.isArray\<close>). Given an array,
  it saves a new document for each element, each through the pipeline above. It starts
  the saves of all the elements together; the call rejects with the error of the save
  that fails first, and the saves that pass insert their documents all the same. The
  model takes the saves one after the other, in the order of the array: the result is the
  first error in that order, or the documents when every save passes, and the store
  gains the documents of the saves that passed.
\<close>

datatype 'a one_or_many = Object 'a | Array "'a list"

fun create_each ::
  "env \<Rightarrow> store \<Rightarrow> (key \<Rightarrow> jsval option) list \<Rightarrow> (error + document) list \<times> store" where
  "create_each w st [] = ([], st)"
| "create_each w st (data # ds) =
     (case Event_create w st data of
        (r, st') \<Rightarrow> (case create_each w st' ds of (rs, st'') \<Rightarrow> (r # rs, st'')))"

fun first_error :: "(error + 'a) list \<Rightarrow> error option" where
  "first_error [] = None"
| "first_error (Inl e # rs) = Some e"
| "first_error (Inr d # rs) = first_error rs"

fun saved :: "(error + 'a) list \<Rightarrow> 'a list" where
  "saved [] = []"
| "saved (Inl e # rs) = saved rs"
| "saved (Inr d # rs) = d # saved rs"

definition Event_create_array ::
  "env \<Rightarrow> store \<Rightarrow> (key \<Rightarrow> jsval option) list \<Rightarrow> (error + document list) \<times> store" where
  "Event_create_array w st ds =
     (case create_each w st ds of
        (rs, st') \<Rightarrow>
          (case first_error rs of
             Some e \<Rightarrow> (Inl e, st')
           | None \<Rightarrow> (Inr (saved rs), st')))"

text \<open>\<open>Event.create(data)\<close> for the body of a request; the result holds the fields of
  the documents created.\<close>

definition Event_create_body ::
  "env \<Rightarrow> store \<Rightarrow> (key \<Rightarrow> jsval option) one_or_many \<Rightarrow>
     (error + (key \<Rightarrow> jsval option) one_or_many) \<times> store" where
  "Event_create_body w st data =
     (case data of
        Object x \<Rightarrow>
          (case Event_create w st x of
             (Inl e, st') \<Rightarrow> (Inl e, st')
           | (Inr d, st') \<Rightarrow> (Inr (Object (props d)), st'))
      | Array xs \<Rightarrow>
          (case Event_create_array w st xs of
             (Inl e, st') \<Rightarrow> (Inl e, st')
           | (Inr docs, st') \<Rightarrow> (Inr (Array (map props docs)), st')))"

section \<open>The request handlers\<close>

text \<open>
  A request carries its \<open>Content-Type\<close> header (if any) and what reading its body gives,
  \<open>None\<close> when the call throws: \<open>json\<close> is the value \<open>request.json()\<close> returns, a
  candidate record or an array of them, and \<open>form\<close> holds the fields that
  \<open>request.formData()\<close> returns, which \<open>Object.fromEntries\<close> makes one object. A JSON
  body of another kind (\<open>null\<close>, a number, a string, a boolean) is not a value of the
  type.
\<close>

record request =
  content_type :: "string option"
  json :: "(key \<Rightarrow> jsval option) one_or_many option"
  form :: "(key \<Rightarrow> jsval option) option"

datatype body =
    Created "(key \<Rightarrow> jsval option) one_or_many"
  | InvalidFormData
  | UnsupportedContentType
  | InternalServerError error
  | Found "key \<Rightarrow> jsval option"
  | Listing store
  | NotFound
  | FailedToFetch

record response =
  status :: nat
  payload :: body

text \<open>\<open>s.includes(sub)\<close>\<close>

definition str_includes :: "string \<Rightarrow> string \<Rightarrow> bool" where
  "str_includes s sub = list_ex (\<lambda>i. take (length sub) (drop i s) = sub) [0..<Suc (length s)]"

text \<open>\<open>request.headers.get("content-type") || ""\<close>\<close>

definition contentType :: "request \<Rightarrow> string" where
  "contentType req = (case content_type req of None \<Rightarrow> '''' | Some s \<Rightarrow> s)"

definition POST :: "env \<Rightarrow> store \<Rightarrow> request \<Rightarrow> response \<times> store" where
  "POST w st req =
     (if \<not> connect_ok w then (\<lparr>status = 500, payload = InternalServerError ConnectionError\<rparr>, st)
      else
        (let created = (\<lambda>data.
               case Event_create_body w st data of
                 (Inl e, st') \<Rightarrow> (\<lparr>status = 500, payload = InternalServerError e\<rparr>, st')
               | (Inr c, st') \<Rightarrow> (\<lparr>status = 201, payload = Created c\<rparr>, st'))
         in if str_includes (contentType req) ''application/json''
            then (case json req of
                    None \<Rightarrow> (\<lparr>status = 500, payload = InternalServerError BodyError\<rparr>, st)
                  | Some data \<Rightarrow> created data)
            else if str_includes (contentType req) ''multipart/form-data''
            then (case form req of
                    None \<Rightarrow> (\<lparr>status = 400, payload = InvalidFormData\<rparr>, st)
                  | Some data \<Rightarrow> created (Object data))
            else (\<lparr>status = 415, payload = UnsupportedContentType\<rparr>, st)))"

text \<open>\<open>GET /api/event/[slug]\<close>: \<open>Event.findOne({ slug })\<close> gives the first document
  whose slug is the parameter.\<close>

definition GET_slug :: "env \<Rightarrow> store \<Rightarrow> string \<Rightarrow> response" where
  "GET_slug w st slug =
     (if \<not> connect_ok w \<or> \<not> query_ok w then \<lparr>status = 500, payload = FailedToFetch\<rparr>
      else (case find (\<lambda>f. f Slug = Some (Str slug)) st of
              None \<Rightarrow> \<lparr>status = 404, payload = NotFound\<rparr>
            | Some f \<Rightarrow> \<lparr>status = 200, payload = Found f\<rparr>))"

text \<open>
  \<open>GET /api/event\<close>: \<open>Event.find().populate('bookings')\<close>. The schema of the source
  declares neither a path nor a virtual \<open>bookings\<close>, and it leaves the option
  \<open>strictPopulate\<close> at its default, so the library refuses to populate the path: when
  \<open>find\<close> has found no document there is nothing to populate and the query gives the
  empty array, and when it has found one the query rejects with a
  \<open>StrictPopulateError\<close>.
\<close>

definition populate_bookings :: "store \<Rightarrow> error + store" where
  "populate_bookings docs = (case docs of [] \<Rightarrow> Inr [] | f # fs \<Rightarrow> Inl StrictPopulateError)"

definition find_populate :: "env \<Rightarrow> store \<Rightarrow> error + store" where
  "find_populate w st = (if query_ok w then populate_bookings st else Inl QueryError)"

definition GET_list :: "env \<Rightarrow> store \<Rightarrow> response" where
  "GET_list w st =
     (if connect_ok w
      then (case find_populate w st of
              Inr events \<Rightarrow> \<lparr>status = 200, payload = Listing events\<rparr>
            | Inl e \<Rightarrow> \<lparr>status = 500, payload = FailedToFetch\<rparr>)
      else \<lparr>status = 500, payload = FailedToFetch\<rparr>)"

text \<open>The content types the create handler tells apart, and the body it hands to
  \<open>Event.create\<close>.\<close>

definition is_json :: "request \<Rightarrow> bool" where
  "is_json req = str_includes (contentType req) ''application/json''"

definition is_multipart :: "request \<Rightarrow> bool" where
  "is_multipart req = str_includes (contentType req) ''multipart/form-data''"

definition request_body :: "request \<Rightarrow> (key \<Rightarrow> jsval option) one_or_many option" where
  "request_body req =
     (if is_json req then json req
      else if is_multipart req then map_option Object (form req)
      else None)"

section \<open>The connection cache\<close>

text \<open>
  \<open>connectToDatabase\<close> is an \<open>async\<close> function, so a call runs up to its \<open>await\<close>,
  and goes on after the awaited promise has settled, while other calls may run in
  between. The process is a state machine:
  \<^item> the state holds the cache (\<open>conn\<close> and \<open>promise\<close>, the latter an index into
    \<open>promises\<close>) and the promises that \<open>mongoose.connect\<close> has returned so far, one for
    each connection attempt, each pending, resolved with a handle, or rejected;
  \<^item> \<open>Call\<close>: a caller enters \<open>connectToDatabase\<close> and runs to the \<open>return\<close> of the
    cached handle or to the \<open>await\<close>;
  \<^item> \<open>Settle i r\<close>: the driver settles the pending promise \<open>i\<close>, resolving it with a
    handle (\<open>Some h\<close>) or rejecting it (\<open>None\<close>);
  \<^item> \<open>Resume i\<close>: a caller that awaits promise \<open>i\<close> goes on: it stores the handle in
    \<open>cached.conn\<close> and returns it, or throws if the promise was rejected.
  A step yields what the caller observes.
\<close>

datatype 'h settled = Pending | Resolved 'h | Rejected

record 'h MongooseCache =
  conn :: "'h option"
  promise :: "nat option"

record 'h process =
  cached :: "'h MongooseCache"
  promises :: "'h settled list"

datatype 'h event = Call | Settle nat "'h option" | Resume nat

datatype 'h observation = Returned 'h | Awaiting nat | Threw | Silent

definition fresh :: "'h process" where
  "fresh = \<lparr>cached = \<lparr>conn = None, promise = None\<rparr>, promises = []\<rparr>"

fun step :: "'h process \<Rightarrow> 'h event \<Rightarrow> 'h process \<times> 'h observation" where
  "step s Call =
     (case conn (cached s) of
        Some h \<Rightarrow> (s, Returned h)
      | None \<Rightarrow>
          (case promise (cached s) of
             None \<Rightarrow>
               (s\<lparr>cached := (cached s)\<lparr>promise := Some (length (promises s))\<rparr>,
                  promises := promises s @ [Pending]\<rparr>,
                Awaiting (length (promises s)))
           | Some i \<Rightarrow> (s, Awaiting i)))"
| "step s (Settle i r) =
     (if i < length (promises s) \<and> promises s ! i = Pending
      then (s\<lparr>promises := (promises s)[i := (case r of Some h \<Rightarrow> Resolved h | None \<Rightarrow> Rejected)]\<rparr>, Silent)
      else (s, Silent))"
| "step s (Resume i) =
     (if i < length (promises s)
      then (case promises s ! i of
              Resolved h \<Rightarrow> (s\<lparr>cached := (cached s)\<lparr>conn := Some h\<rparr>\<rparr>, Returned h)
            | Rejected \<Rightarrow> (s, Threw)
            | Pending \<Rightarrow> (s, Awaiting i))
      else (s, Silent))"

fun run :: "'h process \<Rightarrow> 'h event list \<Rightarrow> 'h process \<times> 'h observation list" where
  "run s [] = (s, [])"
| "run s (e # es) =
     (case step s e of (s', ob) \<Rightarrow> (case run s' es of (s'', obs) \<Rightarrow> (s'', ob # obs)))"

text \<open>
  The module reads \<open>MONGODB_URI\<close> when it is loaded and throws if it is undefined or
  empty; it then takes the cache of \<open>globalThis\<close> if there is one and a fresh one
  otherwise.
\<close>

definition load_module :: "string option \<Rightarrow> 'h process option \<Rightarrow> error + 'h process" where
  "load_module MONGODB_URI global =
     (if MONGODB_URI = None \<or> MONGODB_URI = Some [] then Inl MissingEnvironmentVariable
      else Inr (case global of None \<Rightarrow> fresh | Some s \<Rightarrow> s))"

text \<open>The invariant of the process: either nothing has been attempted, or there is
  exactly one attempt, the cache points to it, and a cached handle is the one the attempt
  resolved with.\<close>

definition cache_inv :: "'h process \<Rightarrow> bool" where
  "cache_inv s \<longleftrightarrow>
     (promises s = [] \<and> promise (cached s) = None \<and> conn (cached s) = None)
     \<or> (length (promises s) = 1 \<and> promise (cached s) = Some 0
          \<and> (\<forall>h. conn (cached s) = Some h \<longrightarrow> promises s = [Resolved h]))"

section \<open>Example data\<close>

text \<open>Example data: a request body in which every field is filled and the agenda is as
  given, and an environment in which the database works and the host is on UTC.\<close>

definition sample_event :: "string list \<Rightarrow> key \<Rightarrow> jsval option" where
  "sample_event agenda k =
     (case k of
        Slug \<Rightarrow> None
      | Title \<Rightarrow> Some (Str ''Cloud Next 2026'')
      | Date \<Rightarrow> Some (Str ''2026-03-05'')
      | Time \<Rightarrow> Some (Str ''9am'')
      | Agenda \<Rightarrow> Some (Arr agenda)
      | Tags \<Rightarrow> Some (Arr [''cloud''])
      | _ \<Rightarrow> Some (Str ''x''))"

definition healthy :: env where
  "healthy = \<lparr>connect_ok = True, query_ok = True, unique_index = True,
              Date_parse = engine_Date_parse 0\<rparr>"

text \<open>A document that carries the example body as it was sent, before any setter.\<close>

definition raw_doc :: "string list \<Rightarrow> document" where
  "raw_doc agenda = \<lparr>props = sample_event agenda, modified = {Title, Date, Time}\<rparr>"

text \<open>Requests: one of type \<open>text/plain\<close>, and one with a JSON body.\<close>

definition text_plain :: request where
  "text_plain = \<lparr>content_type = Some ''text/plain'', json = None, form = None\<rparr>"

definition json_request :: "string list \<Rightarrow> request" where
  "json_request agenda =
     \<lparr>content_type = Some ''application/json'', json = Some (Object (sample_event agenda)),
      form = None\<rparr>"

text \<open>A document whose image is missing and whose venue is blank: the image comes first
  in the declared order.\<close>

definition incomplete_doc :: document where
  "incomplete_doc =
     \<lparr>props = (sample_event [''Talk 1''])(Image := None, Venue := Some (Str '' '')), modified = {}\<rparr>"



text \<open>A document whose title is a no-break space and whose image is missing: the title
  comes first.\<close>

definition blank_title_doc :: document where
  "blank_title_doc =
     \<lparr>props = (sample_event [''Talk 1''])(Title := Some (Str [CHR 0xA0]), Image := None),
      modified = {}\<rparr>"

text \<open>A stored event with its slug.\<close>

definition stored_event :: "key \<Rightarrow> jsval option" where
  "stored_event = (sample_event [''Talk 1''])(Slug := Some (Str ''cloud-next-2026''))"

text \<open>Two callers enter before the connection is established, both go on after it, and
  a third calls later.\<close>

definition two_callers :: "nat event list" where
  "two_callers = [Call, Call, Settle 0 (Some 7), Resume 0, Resume 0, Call]"

definition established :: "nat process" where
  "established = \<lparr>cached = \<lparr>conn = Some 7, promise = Some 0\<rparr>, promises = [Resolved 7]\<rparr>"

section \<open>Properties of the slug derivation\<close>

lemma rx_match_plus:
  "rx_match (Rep p (Suc 0) None) pos s =
     map (\<lambda>k. (k, [])) (rev [Suc 0..<Suc (length (takeWhile p s))])"
  by (simp add: Let_def)

lemma rx_match_plus_Nil: "rx_match (Rep p (Suc 0) None) pos [] = []"
  by simp

lemma rx_match_plus_no: "\<not> p c \<Longrightarrow> rx_match (Rep p (Suc 0) None) pos (c # s) = []"
  by simp

lemma rx_match_plus_yes:
  "p c \<Longrightarrow> \<exists>ms. rx_match (Rep p (Suc 0) None) pos (c # s) = (Suc (length (takeWhile p s)), []) # ms"
  by simp

lemma drop_takeWhile_len: "drop (length (takeWhile p s)) s = dropWhile p s"
  by (induction s) auto

lemma replace1_Nil: "replace_all (Rep p (Suc 0) None) rep pos [] = []"
  by (subst replace_all.simps) simp

lemma replace1_no:
  "\<not> p c \<Longrightarrow> replace_all (Rep p (Suc 0) None) rep pos (c # s) =
     c # replace_all (Rep p (Suc 0) None) rep (Suc pos) s"
  by (subst replace_all.simps) simp

lemma replace1_yes:
  "p c \<Longrightarrow> replace_all (Rep p (Suc 0) None) rep pos (c # s) =
     rep @ replace_all (Rep p (Suc 0) None) rep (pos + Suc (length (takeWhile p s))) (dropWhile p s)"
  by (subst replace_all.simps) (simp add: drop_takeWhile_len)

lemma replace1_set:
  "set (replace_all (Rep p (Suc 0) None) rep pos s) \<subseteq> {c \<in> set s. \<not> p c} \<union> set rep"
proof (induction "length s" arbitrary: s pos rule: less_induct)
  case less
  show ?case
  proof (cases s)
    case Nil
    then show ?thesis by (simp add: replace1_Nil)
  next
    case (Cons c t)
    show ?thesis
    proof (cases "p c")
      case True
      have "length (dropWhile p t) < length s"
        using Cons length_dropWhile_le [of p t] by simp
      from less [OF this] have
        "set (replace_all (Rep p (Suc 0) None) rep (pos + Suc (length (takeWhile p t))) (dropWhile p t))
           \<subseteq> {c \<in> set (dropWhile p t). \<not> p c} \<union> set rep" .
      moreover have "set (dropWhile p t) \<subseteq> set t"
        by (simp add: set_dropWhileD subsetI)
      ultimately show ?thesis
        using True Cons by (auto simp: replace1_yes)
    next
      case False
      have "length t < length s" using Cons by simp
      from less [OF this] show ?thesis
        using False Cons by (auto simp: replace1_no)
    qed
  qed
qed



lemma concat_map_all_Nil: "(\<And>x. x \<in> set xs \<Longrightarrow> f x = []) \<Longrightarrow> concat (map f xs) = []"
  by (induction xs) auto

lemma takeWhile_full_iff: "length (takeWhile p s) = length s \<longleftrightarrow> (\<forall>c\<in>set s. p c)"
  by (induction s) auto

lemma eol_each:
  "map (\<lambda>(n', y). (k + n', y)) (if b then [(0::nat, [])] else []) =
     (if b then [(k, [])] else [])"
  by simp

lemma eol_tail:
  assumes "m \<le> length s"
  shows "concat (map (\<lambda>k. if length s \<le> k then [(k, [])] else []) (rev [Suc 0..<Suc m]))
         = (if 0 < m \<and> m = length s then [(m, [])] else [])"
proof (cases "0 < m")
  case False
  then show ?thesis by simp
next
  case True
  then have split: "rev [Suc 0..<Suc m] = m # rev [Suc 0..<m]" by simp
  have rest: "concat (map (\<lambda>k. if length s \<le> k then [(k, [])] else []) (rev [Suc 0..<m])) = []"
  proof (rule concat_map_all_Nil)
    fix x assume "x \<in> set (rev [Suc 0..<m])"
    then have "x < length s" using assms by simp
    then show "(if length s \<le> x then [(x, [])] else []) = []" by simp
  qed
  show ?thesis
    unfolding split using assms True rest by simp
qed

lemma strip_match_later:
  "0 < pos \<Longrightarrow> rx_match strip_rx pos s =
     (if s \<noteq> [] \<and> (\<forall>c\<in>set s. hy c) then [(length s, [])] else [])"
proof -
  assume pos: "0 < pos"
  have le: "length (takeWhile hy s) \<le> length s" by (rule length_takeWhile_le)
  have "rx_match strip_rx pos s =
      concat (map (\<lambda>k. if length s \<le> k then [(k, [])] else []) (rev [Suc 0..<Suc (length (takeWhile hy s))]))"
    using pos unfolding strip_rx_def
    by (simp add: Let_def comp_def eol_each)
  then have "rx_match strip_rx pos s =
      (if 0 < length (takeWhile hy s) \<and> length (takeWhile hy s) = length s
       then [(length (takeWhile hy s), [])] else [])"
    using eol_tail [OF le] by simp
  also have "\<dots> = (if s \<noteq> [] \<and> (\<forall>c\<in>set s. hy c) then [(length s, [])] else [])"
  proof (cases "\<forall>c\<in>set s. hy c")
    case True
    then have "length (takeWhile hy s) = length s"
      using takeWhile_full_iff [of hy s] by blast
    then show ?thesis using True by simp
  next
    case False
    then have "length (takeWhile hy s) \<noteq> length s"
      using takeWhile_full_iff [of hy s] by blast
    then show ?thesis using False by simp
  qed
  finally show ?thesis .
qed

lemma strip_match_first_no:
  "s = [] \<or> \<not> hy (hd s) \<Longrightarrow> rx_match strip_rx pos s = []"
  by (cases s) (auto simp: strip_rx_def)

lemma strip_match_first_yes:
  "\<exists>ms. rx_match strip_rx 0 (CHR ''-'' # s) = (Suc (length (takeWhile hy s)), []) # ms"
  by (simp add: strip_rx_def)

lemma strip_end_Cons:
  "\<not> (\<forall>x\<in>set (c # t). hy x) \<Longrightarrow>
     rev (dropWhile hy (rev (c # t))) = c # rev (dropWhile hy (rev t))"
proof (cases "\<forall>x\<in>set t. hy x")
  case True
  assume "\<not> (\<forall>x\<in>set (c # t). hy x)"
  with True have c: "c \<noteq> CHR ''-''" by simp
  from True have "dropWhile hy (rev t @ [c]) = dropWhile hy [c]"
    by (intro dropWhile_append2) simp
  moreover from True have "dropWhile hy (rev t) = []" by simp
  ultimately show ?thesis using c by simp
next
  case False
  then obtain x where "x \<in> set (rev t)" "\<not> hy x" by auto
  then have "dropWhile hy (rev t @ [c]) = dropWhile hy (rev t) @ [c]"
    by (rule dropWhile_append1)
  then show ?thesis by simp
qed

lemma strip_later:
  "0 < pos \<Longrightarrow> replace_all strip_rx [] pos s = rev (dropWhile hy (rev s))"
proof (induction s arbitrary: pos)
  case Nil
  then show ?case by (subst replace_all.simps) (simp add: strip_match_later)
next
  case (Cons c t)
  show ?case
  proof (cases "\<forall>x\<in>set (c # t). hy x")
    case True
    then have "rx_match strip_rx pos (c # t) = [(length (c # t), [])]"
      using Cons.prems by (simp add: strip_match_later)
    then have "replace_all strip_rx [] pos (c # t) = replace_all strip_rx [] (pos + length (c # t)) []"
      by (subst replace_all.simps) simp
    also have "\<dots> = []"
      by (subst replace_all.simps) (simp add: strip_match_later)
    finally show ?thesis using True by simp
  next
    case False
    then have "rx_match strip_rx pos (c # t) = []"
      using Cons.prems by (simp add: strip_match_later)
    then have "replace_all strip_rx [] pos (c # t) = c # replace_all strip_rx [] (Suc pos) t"
      by (subst replace_all.simps) simp
    then show ?thesis
      using Cons.IH [of "Suc pos"] strip_end_Cons [OF False] by simp
  qed
qed

lemma strip_whole:
  "replace_all strip_rx [] 0 s = rev (dropWhile hy (rev (dropWhile hy s)))"
proof (cases s)
  case Nil
  then show ?thesis
    by (subst replace_all.simps) (simp add: strip_match_first_no)
next
  case (Cons c t)
  show ?thesis
  proof (cases "c = CHR ''-''")
    case True
    obtain ms where "rx_match strip_rx 0 (CHR ''-'' # t) = (Suc (length (takeWhile hy t)), []) # ms"
      using strip_match_first_yes by blast
    then have "replace_all strip_rx [] 0 (CHR ''-'' # t) =
        replace_all strip_rx [] (Suc (length (takeWhile hy t))) (dropWhile hy t)"
      by (subst replace_all.simps) (simp add: drop_takeWhile_len)
    then show ?thesis
      using True Cons by (simp add: strip_later)
  next
    case False
    then have "rx_match strip_rx 0 (c # t) = []"
      by (simp add: strip_match_first_no)
    then have "replace_all strip_rx [] 0 (c # t) = c # replace_all strip_rx [] (Suc 0) t"
      by (subst replace_all.simps) simp
    moreover have "rev (dropWhile hy (rev (c # t))) = c # rev (dropWhile hy (rev t))"
      using False by (intro strip_end_Cons) simp
    ultimately show ?thesis
      using False Cons by (simp add: strip_later)
  qed
qed


lemma squeeze_match_yes:
  "\<exists>ms. rx_match squeeze_rx pos (CHR ''-'' # CHR ''-'' # t) =
          (Suc (Suc (length (takeWhile hy t))), []) # ms"
  by (simp add: squeeze_rx_def)

lemma squeeze_match_no:
  "\<not> (\<exists>t. s = CHR ''-'' # CHR ''-'' # t) \<Longrightarrow> rx_match squeeze_rx pos s = []"
proof (cases s)
  case Nil
  then show ?thesis by (simp add: squeeze_rx_def)
next
  case (Cons a u)
  assume no: "\<not> (\<exists>t. s = CHR ''-'' # CHR ''-'' # t)"
  show ?thesis
  proof (cases u)
    case Nil
    then show ?thesis using Cons by (simp add: squeeze_rx_def)
  next
    case (Cons b v)
    with no \<open>s = a # u\<close> have "a \<noteq> CHR ''-'' \<or> b \<noteq> CHR ''-''" by auto
    then show ?thesis using Cons \<open>s = a # u\<close> by (auto simp: squeeze_rx_def)
  qed
qed

lemma squeeze_Nil: "replace_all squeeze_rx rep pos [] = []"
  by (subst replace_all.simps) (simp add: squeeze_match_no)

lemma squeeze_yes:
  "replace_all squeeze_rx rep pos (CHR ''-'' # CHR ''-'' # t) =
     rep @ replace_all squeeze_rx rep (pos + Suc (Suc (length (takeWhile hy t)))) (dropWhile hy t)"
proof -
  obtain ms where "rx_match squeeze_rx pos (CHR ''-'' # CHR ''-'' # t) =
      (Suc (Suc (length (takeWhile hy t))), []) # ms"
    using squeeze_match_yes by blast
  then show ?thesis
    by (subst replace_all.simps) (simp add: drop_takeWhile_len)
qed

lemma squeeze_no:
  "\<not> (\<exists>t. c # s = CHR ''-'' # CHR ''-'' # t) \<Longrightarrow>
     replace_all squeeze_rx rep pos (c # s) = c # replace_all squeeze_rx rep (Suc pos) s"
  by (subst replace_all.simps) (simp add: squeeze_match_no)

lemma squeeze_hd:
  "\<exists>out. replace_all squeeze_rx ''-'' pos (c # s) = c # out"
proof (cases "\<exists>t. c # s = CHR ''-'' # CHR ''-'' # t")
  case True
  then show ?thesis by (auto simp: squeeze_yes)
next
  case False
  then show ?thesis by (simp add: squeeze_no)
qed

lemma squeeze_set: "set (replace_all squeeze_rx ''-'' pos s) \<subseteq> set s"
proof (induction "length s" arbitrary: s pos rule: less_induct)
  case less
  show ?case
  proof (cases "\<exists>t. s = CHR ''-'' # CHR ''-'' # t")
    case True
    then obtain t where s: "s = CHR ''-'' # CHR ''-'' # t" by blast
    have "length (dropWhile hy t) < length s"
      using s length_dropWhile_le [of hy t] by simp
    from less [OF this] have
      "set (replace_all squeeze_rx ''-'' (pos + Suc (Suc (length (takeWhile hy t)))) (dropWhile hy t))
         \<subseteq> set (dropWhile hy t)" .
    moreover have "set (dropWhile hy t) \<subseteq> set t"
      by (simp add: set_dropWhileD subsetI)
    ultimately show ?thesis
      unfolding s squeeze_yes by auto
  next
    case False
    show ?thesis
    proof (cases s)
      case Nil
      then show ?thesis by (simp add: squeeze_Nil)
    next
      case (Cons c t)
      have "length t < length s" using Cons by simp
      from less [OF this, of "Suc pos"] show ?thesis
        using False unfolding Cons by (auto simp: squeeze_no)
    qed
  qed
qed

lemma doubled_Nil: "\<not> doubled []"
  by (simp add: doubled_def)

lemma doubled_single: "\<not> doubled [c]"
  by (auto simp: doubled_def Cons_eq_append_conv)

lemma doubled_Cons2:
  "doubled (a # b # s) \<longleftrightarrow> (a = CHR ''-'' \<and> b = CHR ''-'') \<or> doubled (b # s)"
proof
  assume "doubled (a # b # s)"
  then obtain u v where e: "a # b # s = u @ CHR ''-'' # CHR ''-'' # v"
    by (auto simp: doubled_def)
  show "(a = CHR ''-'' \<and> b = CHR ''-'') \<or> doubled (b # s)"
  proof (cases u)
    case Nil
    with e show ?thesis by simp
  next
    case (Cons x u')
    with e have "b # s = u' @ ''--'' @ v" by simp
    then show ?thesis unfolding doubled_def by blast
  qed
next
  assume "(a = CHR ''-'' \<and> b = CHR ''-'') \<or> doubled (b # s)"
  then show "doubled (a # b # s)"
  proof
    assume "a = CHR ''-'' \<and> b = CHR ''-''"
    then have "a # b # s = [] @ ''--'' @ s" by simp
    then show ?thesis unfolding doubled_def by blast
  next
    assume "doubled (b # s)"
    then obtain u v where "b # s = u @ ''--'' @ v" unfolding doubled_def by blast
    then have "a # b # s = (a # u) @ ''--'' @ v" by simp
    then show ?thesis unfolding doubled_def by blast
  qed
qed

lemma squeeze_no_doubled: "\<not> doubled (replace_all squeeze_rx ''-'' pos s)"
proof (induction "length s" arbitrary: s pos rule: less_induct)
  case less
  show ?case
  proof (cases "\<exists>t. s = CHR ''-'' # CHR ''-'' # t")
    case True
    then obtain t where s: "s = CHR ''-'' # CHR ''-'' # t" by blast
    let ?q = "pos + Suc (Suc (length (takeWhile hy t)))"
    have "length (dropWhile hy t) < length s"
      using s length_dropWhile_le [of hy t] by simp
    from less [OF this] have ih: "\<not> doubled (replace_all squeeze_rx ''-'' ?q (dropWhile hy t))" .
    have eq: "replace_all squeeze_rx ''-'' pos s =
        CHR ''-'' # replace_all squeeze_rx ''-'' ?q (dropWhile hy t)"
      unfolding s squeeze_yes by simp
    show ?thesis
    proof (cases "dropWhile hy t")
      case Nil
      have "replace_all squeeze_rx ''-'' pos s = ''-''"
        unfolding eq Nil squeeze_Nil by simp
      then show ?thesis by (simp add: doubled_single)
    next
      case (Cons d w)
      then have "\<not> hy d" using hd_dropWhile [of hy t] by auto
      moreover obtain out where out: "replace_all squeeze_rx ''-'' ?q (d # w) = d # out"
        using squeeze_hd by blast
      ultimately show ?thesis
        using ih unfolding eq Cons by (simp add: doubled_Cons2)
    qed
  next
    case False
    show ?thesis
    proof (cases s)
      case Nil
      then show ?thesis by (simp add: squeeze_Nil doubled_Nil)
    next
      case (Cons c t)
      have "length t < length s" using Cons by simp
      from less [OF this, of "Suc pos"] have ih: "\<not> doubled (replace_all squeeze_rx ''-'' (Suc pos) t)" .
      show ?thesis
      proof (cases t)
        case Nil
        then show ?thesis using False unfolding Cons by (simp add: squeeze_no squeeze_Nil doubled_single)
      next
        case (Cons b w)
        obtain out where out: "replace_all squeeze_rx ''-'' (Suc pos) (b # w) = b # out"
          using squeeze_hd by blast
        have "\<not> (c = CHR ''-'' \<and> b = CHR ''-'')"
          using False \<open>s = c # t\<close> Cons by simp
        then show ?thesis
          using ih False out unfolding \<open>s = c # t\<close> Cons by (simp add: squeeze_no doubled_Cons2)
      qed
    qed
  qed
qed

lemma squeeze_last:
  "s \<noteq> [] \<Longrightarrow> last s \<noteq> CHR ''-'' \<Longrightarrow>
     replace_all squeeze_rx ''-'' pos s \<noteq> [] \<and> last (replace_all squeeze_rx ''-'' pos s) = last s"
proof (induction "length s" arbitrary: s pos rule: less_induct)
  case less
  show ?case
  proof (cases "\<exists>t. s = CHR ''-'' # CHR ''-'' # t")
    case True
    then obtain t where s: "s = CHR ''-'' # CHR ''-'' # t" by blast
    let ?q = "pos + Suc (Suc (length (takeWhile hy t)))"
    have len: "length (dropWhile hy t) < length s"
      using s length_dropWhile_le [of hy t] by simp
    have ne: "dropWhile hy t \<noteq> []"
    proof
      assume "dropWhile hy t = []"
      then have "\<forall>x\<in>set t. hy x" by (simp add: dropWhile_eq_Nil_conv)
      then have "last s = CHR ''-''" unfolding s by (cases t rule: rev_cases) auto
      with less.prems show False by simp
    qed
    have "t \<noteq> []" using ne by auto
    have "last (dropWhile hy t) = last t"
      using ne by (metis last_appendR takeWhile_dropWhile_id)
    then have lt: "last (dropWhile hy t) = last s"
      using \<open>t \<noteq> []\<close> unfolding s by simp
    with less.prems have "last (dropWhile hy t) \<noteq> CHR ''-''" by simp
    from less.hyps [OF len ne this, of ?q] show ?thesis
      unfolding s squeeze_yes using lt s by simp
  next
    case False
    obtain c t where s: "s = c # t" using less.prems by (cases s) auto
    show ?thesis
    proof (cases "t = []")
      case True
      then show ?thesis using False unfolding s by (simp add: squeeze_no squeeze_Nil)
    next
      case nonempty: False
      have "length t < length s" using s by simp
      moreover have "last t \<noteq> CHR ''-''" using less.prems nonempty s by simp
      ultimately have "replace_all squeeze_rx ''-'' (Suc pos) t \<noteq> [] \<and>
          last (replace_all squeeze_rx ''-'' (Suc pos) t) = last t"
        using less.hyps nonempty by blast
      then show ?thesis
        using False nonempty unfolding s by (simp add: squeeze_no)
    qed
  qed
qed


lemma strip_set: "set (rev (dropWhile hy (rev (dropWhile hy s)))) \<subseteq> set s"
proof -
  have "set (rev (dropWhile hy (rev (dropWhile hy s)))) = set (dropWhile hy (rev (dropWhile hy s)))"
    by (rule set_rev)
  also have "\<dots> \<subseteq> set (rev (dropWhile hy s))"
    by (meson set_dropWhileD subsetI)
  also have "set (rev (dropWhile hy s)) = set (dropWhile hy s)"
    by (rule set_rev)
  also have "\<dots> \<subseteq> set s"
    by (meson set_dropWhileD subsetI)
  finally show ?thesis .
qed

lemma strip_no_lead: "\<not> (\<exists>u. rev (dropWhile hy (rev (dropWhile hy s))) = CHR ''-'' # u)"
proof
  define d where "d = dropWhile hy s"
  assume "\<exists>u. rev (dropWhile hy (rev (dropWhile hy s))) = CHR ''-'' # u"
  then obtain u where u: "rev (dropWhile hy (rev d)) = CHR ''-'' # u"
    unfolding d_def by blast
  have "rev (rev d) = rev (takeWhile hy (rev d) @ dropWhile hy (rev d))"
    by (simp only: takeWhile_dropWhile_id)
  then have "d = rev (dropWhile hy (rev d)) @ rev (takeWhile hy (rev d))"
    by (simp only: rev_rev_ident rev_append)
  then have "d = (CHR ''-'' # u) @ rev (takeWhile hy (rev d))"
    by (simp only: u)
  then have "d \<noteq> []" "hd d = CHR ''-''"
    by (metis append_Cons list.distinct(1), metis append_Cons list.sel(1))
  then show False
    using hd_dropWhile [of hy s] unfolding d_def by blast
qed

lemma strip_no_trail: "\<not> (\<exists>u. rev (dropWhile hy (rev (dropWhile hy s))) = u @ ''-'')"
proof
  define e where "e = dropWhile hy (rev (dropWhile hy s))"
  assume "\<exists>u. rev (dropWhile hy (rev (dropWhile hy s))) = u @ ''-''"
  then obtain u where "rev e = u @ ''-''"
    unfolding e_def by blast
  then have "rev (rev e) = rev (u @ ''-'')"
    by (simp only:)
  then have "e = CHR ''-'' # rev u"
    by (simp only: rev_rev_ident rev_append rev.simps append_Nil append_Cons)
  then have "e \<noteq> []" "hd e = CHR ''-''"
    by (metis list.distinct(1), metis list.sel(1))
  then show False
    using hd_dropWhile [of hy "rev (dropWhile hy s)"] unfolding e_def by blast
qed

lemma lower_not_upper:
  "is_lower c \<or> is_digit c \<or> c = CHR ''-'' \<Longrightarrow> \<not> is_upper c \<and> \<not> is_upper_latin c"
  by (auto simp: is_lower_def is_digit_def is_upper_def is_upper_latin_def less_eq_char_def)

lemma toLowerCase_fixed:
  "\<forall>c\<in>set s. is_lower c \<or> is_digit c \<or> c = CHR ''-'' \<Longrightarrow> toLowerCase s = s"
  unfolding toLowerCase_def
  by (induction s) (simp_all add: lower_char_def lower_not_upper)

lemma slugify_unfold:
  "slugify t = replace_all squeeze_rx ''-'' 0
     (rev (dropWhile hy (rev (dropWhile hy
        (replace_all non_alnum_rx ''-'' 0 (trim (toLowerCase t)))))))"
  by (simp add: slugify_def str_replace_all_def strip_whole)

text \<open>
  C3. For every title, the derived slug consists of characters of \<open>[a-z0-9-]\<close> only,
  is lowercase (lowercasing it again changes nothing), does not start with a hyphen,
  does not end with a hyphen, and contains no two hyphens in a row.
\<close>

theorem slugify_wellformed:
  "(\<forall>c\<in>set (slugify t). is_lower c \<or> is_digit c \<or> c = CHR ''-'')
   \<and> toLowerCase (slugify t) = slugify t
   \<and> \<not> (\<exists>u. slugify t = CHR ''-'' # u)
   \<and> \<not> (\<exists>u. slugify t = u @ ''-'')
   \<and> \<not> (\<exists>u v. slugify t = u @ ''--'' @ v)"
proof -
  define a where "a = replace_all non_alnum_rx ''-'' 0 (trim (toLowerCase t))"
  define b where "b = rev (dropWhile hy (rev (dropWhile hy a)))"
  have slug: "slugify t = replace_all squeeze_rx ''-'' 0 b"
    unfolding b_def a_def by (rule slugify_unfold)
  have "set a \<subseteq> {c \<in> set (trim (toLowerCase t)). \<not> \<not> (is_lower c \<or> is_digit c)} \<union> set ''-''"
    unfolding a_def non_alnum_rx_def One_nat_def by (rule replace1_set)
  then have a_chars: "\<forall>c\<in>set a. is_lower c \<or> is_digit c \<or> c = CHR ''-''"
    by auto
  have "set b \<subseteq> set a" unfolding b_def by (rule strip_set)
  moreover have "set (slugify t) \<subseteq> set b" unfolding slug by (rule squeeze_set)
  ultimately have chars: "\<forall>c\<in>set (slugify t). is_lower c \<or> is_digit c \<or> c = CHR ''-''"
    using a_chars by blast
  have lower: "toLowerCase (slugify t) = slugify t"
    using chars by (rule toLowerCase_fixed)
  have lead: "\<not> (\<exists>u. slugify t = CHR ''-'' # u)"
  proof (cases b)
    case Nil
    then show ?thesis unfolding slug by (simp add: squeeze_Nil)
  next
    case (Cons c w)
    then have "c \<noteq> CHR ''-''" using strip_no_lead [of a] unfolding b_def by auto
    moreover obtain out where "replace_all squeeze_rx ''-'' 0 (c # w) = c # out"
      using squeeze_hd by blast
    ultimately show ?thesis unfolding slug Cons by simp
  qed
  have trail: "\<not> (\<exists>u. slugify t = u @ ''-'')"
  proof (cases "b = []")
    case True
    then show ?thesis unfolding slug by (simp add: squeeze_Nil)
  next
    case False
    have "last b \<noteq> CHR ''-''"
    proof
      assume "last b = CHR ''-''"
      with False have "b = butlast b @ ''-''"
        by (metis append_butlast_last_id)
      then show False using strip_no_trail [of a] unfolding b_def by blast
    qed
    with False have "last (replace_all squeeze_rx ''-'' 0 b) = last b"
      using squeeze_last by blast
    with \<open>last b \<noteq> CHR ''-''\<close> show ?thesis unfolding slug by auto
  qed
  have "\<not> doubled (slugify t)" unfolding slug by (rule squeeze_no_doubled)
  then have dbl: "\<not> (\<exists>u v. slugify t = u @ ''--'' @ v)" unfolding doubled_def .
  from chars lower lead trail dbl show ?thesis by blast
qed

theorem slugify_wellformed_witness:
  "slugify ''  Hello,  World! --- 2026 '' = ''hello-world-2026''
   \<and> CHR ''h'' \<in> set (slugify ''  Hello,  World! --- 2026 '')
   \<and> is_lower (CHR ''h'')
   \<and> toLowerCase (slugify ''  Hello,  World! --- 2026 '') = ''hello-world-2026''"
proof -
  have v: "slugify ''  Hello,  World! --- 2026 '' = ''hello-world-2026''"
    by code_simp
  have l: "is_lower (CHR ''h'')" by code_simp
  have "toLowerCase (slugify ''  Hello,  World! --- 2026 '') = slugify ''  Hello,  World! --- 2026 ''"
    using slugify_wellformed [of "''  Hello,  World! --- 2026 ''"] by (rule conjunct2 [THEN conjunct1])
  then show ?thesis
    using l unfolding v by simp
qed

section \<open>Properties of the matcher\<close>

lemma mem_Eol: "(n, cs) \<in> set (rx_match Eol pos s) \<longleftrightarrow> s = [] \<and> n = 0 \<and> cs = []"
  by auto

lemma mem_Seq:
  "(n, cs) \<in> set (rx_match (Seq a b) pos s) \<longleftrightarrow>
     (\<exists>n1 c1 n2 c2. (n1, c1) \<in> set (rx_match a pos s)
        \<and> (n2, c2) \<in> set (rx_match b (pos + n1) (drop n1 s))
        \<and> n = n1 + n2 \<and> cs = c1 @ c2)"
  by (auto simp: image_iff) force+

lemma mem_Rep:
  "(n, cs) \<in> set (rx_match (Rep p lo hi) pos s) \<longleftrightarrow>
     cs = [] \<and> lo \<le> n \<and> n \<le> length (takeWhile p s)
       \<and> (case hi of None \<Rightarrow> True | Some h \<Rightarrow> n \<le> h)"
  by (auto simp: Let_def split: option.splits)

lemma take_takeWhile: "n \<le> length (takeWhile p s) \<Longrightarrow> take n s = take n (takeWhile p s)"
proof (induction s arbitrary: n)
  case Nil
  then show ?case by simp
next
  case (Cons c s)
  then show ?case by (cases n) (auto split: if_splits)
qed

lemma takeWhile_len_iff:
  "n \<le> length (takeWhile p s) \<longleftrightarrow> (\<exists>g t. s = g @ t \<and> length g = n \<and> (\<forall>c\<in>set g. p c))"
proof
  assume n: "n \<le> length (takeWhile p s)"
  have "n \<le> length s" using n length_takeWhile_le [of p s] by linarith
  then have "length (take n s) = n" by simp
  moreover have "\<forall>c\<in>set (take n s). p c"
    unfolding take_takeWhile [OF n] by (meson in_set_takeD set_takeWhileD)
  moreover have "s = take n s @ drop n s" by simp
  ultimately show "\<exists>g t. s = g @ t \<and> length g = n \<and> (\<forall>c\<in>set g. p c)" by blast
next
  assume "\<exists>g t. s = g @ t \<and> length g = n \<and> (\<forall>c\<in>set g. p c)"
  then obtain g t where s: "s = g @ t" and g: "length g = n" "\<forall>c\<in>set g. p c" by blast
  from g(2) have "takeWhile p (g @ t) = g @ takeWhile p t"
    by (intro takeWhile_append2) simp
  then show "n \<le> length (takeWhile p s)" using s g(1) by simp
qed

lemma mem_Seq_Rep:
  "(n, cs) \<in> set (rx_match (Seq (Rep p lo hi) b) pos s) \<longleftrightarrow>
     (\<exists>g t n2. s = g @ t \<and> lo \<le> length g \<and> (case hi of None \<Rightarrow> True | Some h \<Rightarrow> length g \<le> h)
        \<and> (\<forall>c\<in>set g. p c) \<and> (n2, cs) \<in> set (rx_match b (pos + length g) t) \<and> n = length g + n2)"
  (is "?L \<longleftrightarrow> ?R")
proof
  assume ?L
  then obtain n1 n2 where a: "lo \<le> n1" "n1 \<le> length (takeWhile p s)"
      "case hi of None \<Rightarrow> True | Some h \<Rightarrow> n1 \<le> h"
      "(n2, cs) \<in> set (rx_match b (pos + n1) (drop n1 s))" "n = n1 + n2"
    unfolding mem_Seq mem_Rep by auto
  from a(2) obtain g t where gt: "s = g @ t" "length g = n1" "\<forall>c\<in>set g. p c"
    unfolding takeWhile_len_iff by blast
  then have "drop n1 s = t" by simp
  with a gt have "s = g @ t \<and> lo \<le> length g \<and> (case hi of None \<Rightarrow> True | Some h \<Rightarrow> length g \<le> h)
        \<and> (\<forall>c\<in>set g. p c) \<and> (n2, cs) \<in> set (rx_match b (pos + length g) t) \<and> n = length g + n2"
    by (auto split: option.splits)
  then show ?R by blast
next
  assume ?R
  then obtain g t n2 where r: "s = g @ t" "lo \<le> length g"
      "case hi of None \<Rightarrow> True | Some h \<Rightarrow> length g \<le> h" "\<forall>c\<in>set g. p c"
      "(n2, cs) \<in> set (rx_match b (pos + length g) t)" "n = length g + n2"
    by blast
  have "length g \<le> length (takeWhile p s)"
    unfolding takeWhile_len_iff using r(1,4) by blast
  moreover have "drop (length g) s = t" using r(1) by simp
  ultimately have "(length g, []) \<in> set (rx_match (Rep p lo hi) pos s)
      \<and> (n2, cs) \<in> set (rx_match b (pos + length g) (drop (length g) s))
      \<and> n = length g + n2 \<and> cs = [] @ cs"
    unfolding mem_Rep using r by simp
  then show ?L
    unfolding mem_Seq by blast
qed

lemma mem_Seq_GrpRep:
  "(n, cs) \<in> set (rx_match (Seq (Grp (Rep p lo hi)) b) pos s) \<longleftrightarrow>
     (\<exists>g t n2 c2. s = g @ t \<and> lo \<le> length g \<and> (case hi of None \<Rightarrow> True | Some h \<Rightarrow> length g \<le> h)
        \<and> (\<forall>c\<in>set g. p c) \<and> (n2, c2) \<in> set (rx_match b (pos + length g) t)
        \<and> n = length g + n2 \<and> cs = g # c2)"
  (is "?L \<longleftrightarrow> ?R")
proof
  assume ?L
  then obtain n1 c1 n2 c2 where a: "(n1, c1) \<in> set (rx_match (Grp (Rep p lo hi)) pos s)"
      "(n2, c2) \<in> set (rx_match b (pos + n1) (drop n1 s))" "n = n1 + n2" "cs = c1 @ c2"
    unfolding mem_Seq by blast
  from a(1) have "(n1, []) \<in> set (rx_match (Rep p lo hi) pos s)" and c1: "c1 = [take n1 s]"
    by (auto simp: Let_def)
  then have b: "lo \<le> n1" "n1 \<le> length (takeWhile p s)" "case hi of None \<Rightarrow> True | Some h \<Rightarrow> n1 \<le> h"
    unfolding mem_Rep by auto
  from b(2) obtain g t where gt: "s = g @ t" "length g = n1" "\<forall>c\<in>set g. p c"
    unfolding takeWhile_len_iff by blast
  then have "drop n1 s = t" "take n1 s = g" by simp_all
  with a(2,3,4) b c1 gt have "s = g @ t \<and> lo \<le> length g \<and> (case hi of None \<Rightarrow> True | Some h \<Rightarrow> length g \<le> h)
        \<and> (\<forall>c\<in>set g. p c) \<and> (n2, c2) \<in> set (rx_match b (pos + length g) t)
        \<and> n = length g + n2 \<and> cs = g # c2"
    by (auto split: option.splits)
  then show ?R by blast
next
  assume ?R
  then obtain g t n2 c2 where r: "s = g @ t" "lo \<le> length g"
      "case hi of None \<Rightarrow> True | Some h \<Rightarrow> length g \<le> h" "\<forall>c\<in>set g. p c"
      "(n2, c2) \<in> set (rx_match b (pos + length g) t)" "n = length g + n2" "cs = g # c2"
    by blast
  have "length g \<le> length (takeWhile p s)"
    unfolding takeWhile_len_iff using r(1,4) by blast
  with r(2,3) have "(length g, []) \<in> set (rx_match (Rep p lo hi) pos s)"
    unfolding mem_Rep by simp
  moreover have "take (length g) s = g" using r(1) by simp
  ultimately have "(length g, [g]) \<in> set (rx_match (Grp (Rep p lo hi)) pos s)"
    by (simp only: rx_match.simps) force
  moreover have "drop (length g) s = t" using r(1) by simp
  ultimately have "(length g, [g]) \<in> set (rx_match (Grp (Rep p lo hi)) pos s)
      \<and> (n2, c2) \<in> set (rx_match b (pos + length g) (drop (length g) s))
      \<and> n = length g + n2 \<and> cs = [g] @ c2"
    using r(5,6,7) by simp
  then show ?L
    unfolding mem_Seq by blast
qed

lemma mem_Seq_Lit:
  "(n, cs) \<in> set (rx_match (Seq (Lit w) b) pos s) \<longleftrightarrow>
     (\<exists>t n2. s = w @ t \<and> (n2, cs) \<in> set (rx_match b (pos + length w) t) \<and> n = length w + n2)"
  (is "?L \<longleftrightarrow> ?R")
proof
  assume ?L
  then obtain n2 where a: "take (length w) s = w"
      "(n2, cs) \<in> set (rx_match b (pos + length w) (drop (length w) s))" "n = length w + n2"
    unfolding mem_Seq by (auto split: if_splits)
  have "s = take (length w) s @ drop (length w) s" by simp
  with a(1) have "s = w @ drop (length w) s" by simp
  with a show ?R by blast
next
  assume ?R
  then obtain t n2 where r: "s = w @ t" "(n2, cs) \<in> set (rx_match b (pos + length w) t)"
      "n = length w + n2" by blast
  then have "take (length w) s = w" "drop (length w) s = t" by simp_all
  then show ?L unfolding mem_Seq using r by auto
qed

lemma mem_Seq_Alt:
  "(n, cs) \<in> set (rx_match (Seq (Alt x y) b) pos s) \<longleftrightarrow>
     (n, cs) \<in> set (rx_match (Seq x b) pos s) \<or> (n, cs) \<in> set (rx_match (Seq y b) pos s)"
  unfolding mem_Seq by (simp only: rx_match.simps(7) set_append Un_iff) blast

lemma mem_Seq_Eps:
  "(n, cs) \<in> set (rx_match (Seq Eps b) pos s) \<longleftrightarrow> (n, cs) \<in> set (rx_match b pos s)"
  unfolding mem_Seq by auto

lemma mem_Seq_Seq:
  "(n, cs) \<in> set (rx_match (Seq (Seq x y) b) pos s) \<longleftrightarrow>
     (n, cs) \<in> set (rx_match (Seq x (Seq y b)) pos s)"
  (is "?L \<longleftrightarrow> ?R")
proof
  assume ?L
  then obtain n12 c12 n3 c3 where o: "(n12, c12) \<in> set (rx_match (Seq x y) pos s)"
      "(n3, c3) \<in> set (rx_match b (pos + n12) (drop n12 s))" "n = n12 + n3" "cs = c12 @ c3"
    unfolding mem_Seq [of n cs "Seq x y"] by blast
  from o(1) obtain n1 c1 n2 c2 where i: "(n1, c1) \<in> set (rx_match x pos s)"
      "(n2, c2) \<in> set (rx_match y (pos + n1) (drop n1 s))" "n12 = n1 + n2" "c12 = c1 @ c2"
    unfolding mem_Seq by blast
  have d: "drop n2 (drop n1 s) = drop (n1 + n2) s" by (simp add: add.commute)
  have "(n3, c3) \<in> set (rx_match b (pos + n1 + n2) (drop n2 (drop n1 s)))"
    using o(2) by (simp only: i(3) d add.assoc)
  with i(2) have "(n2 + n3, c2 @ c3) \<in> set (rx_match (Seq y b) (pos + n1) (drop n1 s))"
    unfolding mem_Seq [of _ _ y b] by blast
  with i(1) have "(n1 + (n2 + n3), c1 @ (c2 @ c3)) \<in> set (rx_match (Seq x (Seq y b)) pos s)"
    unfolding mem_Seq [of _ _ x "Seq y b"] by blast
  then show ?R using o(3,4) i(3,4) by (simp add: add.assoc)
next
  assume ?R
  then obtain n1 c1 n23 c23 where o: "(n1, c1) \<in> set (rx_match x pos s)"
      "(n23, c23) \<in> set (rx_match (Seq y b) (pos + n1) (drop n1 s))" "n = n1 + n23" "cs = c1 @ c23"
    unfolding mem_Seq [of n cs x] by blast
  from o(2) obtain n2 c2 n3 c3 where i: "(n2, c2) \<in> set (rx_match y (pos + n1) (drop n1 s))"
      "(n3, c3) \<in> set (rx_match b (pos + n1 + n2) (drop n2 (drop n1 s)))" "n23 = n2 + n3" "c23 = c2 @ c3"
    unfolding mem_Seq by blast
  have d: "drop n2 (drop n1 s) = drop (n1 + n2) s" by (simp add: add.commute)
  from o(1) i(1) have "(n1 + n2, c1 @ c2) \<in> set (rx_match (Seq x y) pos s)"
    unfolding mem_Seq [of _ _ x y] by blast
  moreover have "(n3, c3) \<in> set (rx_match b (pos + (n1 + n2)) (drop (n1 + n2) s))"
    using i(2) by (simp only: d add.assoc)
  ultimately have "((n1 + n2) + n3, (c1 @ c2) @ c3) \<in> set (rx_match (Seq (Seq x y) b) pos s)"
    unfolding mem_Seq [of _ _ "Seq x y" b] by blast
  then show ?L using o(3,4) i(3,4) by (simp add: add.assoc)
qed

section \<open>Properties of the time normalization\<close>

lemma exec_Bol_later: "0 < pos \<Longrightarrow> rx_exec (Seq Bol r) pos s = None"
proof (induction s arbitrary: pos)
  case Nil
  then show ?case by (subst rx_exec.simps) simp
next
  case (Cons c s)
  from Cons.prems have "rx_match (Seq Bol r) pos (c # s) = []" by simp
  moreover have "rx_exec (Seq Bol r) (Suc pos) s = None" by (rule Cons.IH) simp
  ultimately show ?case
    using Cons.prems by (subst rx_exec.simps) simp
qed

lemma match_Bol_body: "rx_match (Seq Bol r) 0 s = rx_match r 0 s"
  by simp

lemma str_match_Bol:
  "str_match s (Seq Bol r) =
     (case rx_match r 0 s of [] \<Rightarrow> None | (n, cs) # _ \<Rightarrow> Some (take n s # cs))"
proof (cases "rx_match r 0 s")
  case Nil
  then have m: "rx_match (Seq Bol r) 0 s = []" by (simp only: match_Bol_body)
  show ?thesis
  proof (cases s)
    case Nil
    then show ?thesis
      unfolding str_match_def using m \<open>rx_match r 0 s = []\<close> by (subst rx_exec.simps) simp
  next
    case (Cons c t)
    have "rx_exec (Seq Bol r) (Suc 0) t = None" by (rule exec_Bol_later) simp
    then show ?thesis
      unfolding str_match_def using m \<open>rx_match r 0 s = []\<close> Cons by (subst rx_exec.simps) simp
  qed
next
  case (Cons x xs)
  then have m: "rx_match (Seq Bol r) 0 s = x # xs" by (simp only: match_Bol_body)
  show ?thesis
    unfolding str_match_def using m Cons by (subst rx_exec.simps) (simp split: prod.splits)
qed

lemma colon_rx_body: "colon_rx = Seq Bol colon_body"
  by (simp add: colon_rx_def colon_body_def)

lemma ampm_ws_rx_body: "ampm_ws_rx = Seq Bol ampm_ws_body"
  by (simp add: ampm_ws_rx_def ampm_ws_body_def)

lemma ampm_rx_body: "ampm_rx = Seq Bol ampm_body"
  by (simp add: ampm_rx_def ampm_body_def)

lemma mem_tail_colon:
  "(n, cs) \<in> set (rx_match (Seq (Alt (Seq (Lit '':'') (Rep is_digit 2 (Some 2))) Eps) Eol) pos t) \<longleftrightarrow>
     cs = [] \<and> n = length t \<and> (t = [] \<or> (\<exists>ss. digits ss \<and> length ss = 2 \<and> t = '':'' @ ss))"
  unfolding mem_Seq_Alt mem_Seq_Seq mem_Seq_Eps mem_Seq_Lit mem_Seq_Rep mem_Eol digits_def
  by auto

lemma mem_Seq_GrpRepI:
  "lo \<le> length g \<Longrightarrow> (case hi of None \<Rightarrow> True | Some h \<Rightarrow> length g \<le> h) \<Longrightarrow> \<forall>c\<in>set g. p c \<Longrightarrow>
   (n2, c2) \<in> set (rx_match b (pos + length g) t) \<Longrightarrow>
   (length g + n2, g # c2) \<in> set (rx_match (Seq (Grp (Rep p lo hi)) b) pos (g @ t))"
  by (subst mem_Seq_GrpRep) blast

lemma mem_Seq_RepI:
  "lo \<le> length g \<Longrightarrow> (case hi of None \<Rightarrow> True | Some h \<Rightarrow> length g \<le> h) \<Longrightarrow> \<forall>c\<in>set g. p c \<Longrightarrow>
   (n2, cs) \<in> set (rx_match b (pos + length g) t) \<Longrightarrow>
   (length g + n2, cs) \<in> set (rx_match (Seq (Rep p lo hi) b) pos (g @ t))"
  by (subst mem_Seq_Rep) blast

lemma mem_Seq_LitI:
  "(n2, cs) \<in> set (rx_match b (pos + length w) t) \<Longrightarrow>
   (length w + n2, cs) \<in> set (rx_match (Seq (Lit w) b) pos (w @ t))"
  by (subst mem_Seq_Lit) blast

lemma colon_mem:
  "(n, cs) \<in> set (rx_match colon_body pos v) \<longleftrightarrow>
     (\<exists>hh mm. cs = [hh, mm] \<and> is_colon_form v hh mm \<and> n = length v)"
  (is "?L \<longleftrightarrow> ?R")
proof
  assume ?L
  then show ?R
    unfolding colon_body_def mem_Seq_GrpRep mem_Seq_Lit mem_tail_colon is_colon_form_def digits_def
    by (auto simp: le_Suc_eq numeral_2_eq_2)
next
  assume ?R
  then obtain hh mm where cs: "cs = [hh, mm]" and f: "is_colon_form v hh mm" and n: "n = length v"
    by blast
  from f obtain tl where v: "v = hh @ '':'' @ mm @ tl"
      and tl: "tl = [] \<or> (\<exists>ss. digits ss \<and> length ss = 2 \<and> tl = '':'' @ ss)"
    unfolding is_colon_form_def by auto
  from f have hh: "1 \<le> length hh" "length hh \<le> 2" "\<forall>c\<in>set hh. is_digit c"
      and mm: "2 \<le> length mm" "length mm \<le> 2" "\<forall>c\<in>set mm. is_digit c"
    unfolding is_colon_form_def digits_def by auto
  let ?tail = "Seq (Alt (Seq (Lit '':'') (Rep is_digit 2 (Some 2))) Eps) Eol"
  have "(length tl, []) \<in> set (rx_match ?tail (pos + length hh + length '':'' + length mm) tl)"
    unfolding mem_tail_colon using tl by simp
  then have "(length mm + length tl, [mm]) \<in>
      set (rx_match (Seq (Grp (Rep is_digit 2 (Some 2))) ?tail) (pos + length hh + length '':'') (mm @ tl))"
    using mm by (intro mem_Seq_GrpRepI) simp_all
  then have "(length '':'' + (length mm + length tl), [mm]) \<in>
      set (rx_match (Seq (Lit '':'') (Seq (Grp (Rep is_digit 2 (Some 2))) ?tail)) (pos + length hh) ('':'' @ mm @ tl))"
    by (rule mem_Seq_LitI)
  then have "(length hh + (length '':'' + (length mm + length tl)), [hh, mm]) \<in>
      set (rx_match colon_body pos (hh @ '':'' @ mm @ tl))"
    unfolding colon_body_def using hh by (intro mem_Seq_GrpRepI) simp_all
  then show ?L unfolding cs n v by simp
qed


lemma digits_prefix:
  "\<forall>c\<in>set g. p c \<Longrightarrow> t = [] \<or> \<not> p (hd t) \<Longrightarrow> takeWhile p (g @ t) = g"
proof -
  assume g: "\<forall>c\<in>set g. p c" and t: "t = [] \<or> \<not> p (hd t)"
  from g have "takeWhile p (g @ t) = g @ takeWhile p t"
    by (intro takeWhile_append2) simp
  moreover from t have "takeWhile p t = []" by (cases t) auto
  ultimately show ?thesis by simp
qed

lemma colon_not_digit: "\<not> is_digit (CHR '':'')"
  by (simp add: is_digit_def less_eq_char_def)

lemma colon_unique:
  assumes "is_colon_form v hh mm" "is_colon_form v hh' mm'"
  shows "hh = hh' \<and> mm = mm'"
proof -
  from assms(1) obtain tl where v: "v = hh @ CHR '':'' # mm @ tl"
      and d: "\<forall>c\<in>set hh. is_digit c" "length mm = 2"
    unfolding is_colon_form_def digits_def by auto
  from assms(2) obtain tl' where v': "v = hh' @ CHR '':'' # mm' @ tl'"
      and d': "\<forall>c\<in>set hh'. is_digit c" "length mm' = 2"
    unfolding is_colon_form_def digits_def by auto
  have "takeWhile is_digit v = hh"
    unfolding v using d(1) colon_not_digit by (intro digits_prefix) simp_all
  moreover have "takeWhile is_digit v = hh'"
    unfolding v' using d'(1) colon_not_digit by (intro digits_prefix) simp_all
  ultimately have hh: "hh = hh'" by simp
  with v v' have "mm @ tl = mm' @ tl'" by simp
  with d(2) d'(2) have "mm = mm'" by simp
  with hh show ?thesis by simp
qed

lemma colon_Some:
  assumes "str_match v colon_rx = Some ms"
  shows "\<exists>hh mm. ms = [v, hh, mm] \<and> is_colon_form v hh mm"
proof -
  from assms obtain n cs xs where m: "rx_match colon_body 0 v = (n, cs) # xs" and ms: "ms = take n v # cs"
    unfolding colon_rx_body str_match_Bol by (auto split: list.splits)
  from m have "(n, cs) \<in> set (rx_match colon_body 0 v)" by simp
  then obtain hh mm where "cs = [hh, mm]" "is_colon_form v hh mm" "n = length v"
    unfolding colon_mem by blast
  with ms show ?thesis by simp
qed

lemma colon_None:
  assumes "str_match v colon_rx = None"
  shows "\<not> is_colon_form v hh mm"
proof
  assume "is_colon_form v hh mm"
  then have "(length v, [hh, mm]) \<in> set (rx_match colon_body 0 v)"
    unfolding colon_mem by blast
  moreover from assms have "rx_match colon_body 0 v = []"
    unfolding colon_rx_body str_match_Bol by (auto split: list.splits)
  ultimately show False by simp
qed

lemma colon_match:
  assumes "is_colon_form v hh mm"
  shows "str_match v colon_rx = Some [v, hh, mm]"
proof (cases "str_match v colon_rx")
  case None
  then show ?thesis using colon_None assms by blast
next
  case (Some ms)
  then obtain hh' mm' where "ms = [v, hh', mm']" "is_colon_form v hh' mm'"
    using colon_Some by blast
  with assms Some show ?thesis using colon_unique by blast
qed


lemma mem_suffix:
  "(n, cs) \<in> set (rx_match (Seq (Grp (Alt (Lit ''am'') (Lit ''pm''))) Eol) pos t) \<longleftrightarrow>
     (t = ''am'' \<or> t = ''pm'') \<and> n = 2 \<and> cs = [t]"
  (is "?L \<longleftrightarrow> ?R")
proof
  assume ?L
  then obtain n1 c1 where a: "(n1, c1) \<in> set (rx_match (Grp (Alt (Lit ''am'') (Lit ''pm''))) pos t)"
      and e: "drop n1 t = []" and n: "n = n1" and c: "cs = c1"
    unfolding mem_Seq mem_Eol by auto
  from a have "n1 = 2 \<and> c1 = [take n1 t] \<and> (take n1 t = ''am'' \<or> take n1 t = ''pm'')"
    by (auto split: if_splits)
  moreover from e have "take n1 t = t" by simp
  ultimately show ?R using n c by simp
next
  assume ?R
  then have "(2, [t]) \<in> set (rx_match (Grp (Alt (Lit ''am'') (Lit ''pm''))) pos t)"
      "drop 2 t = []" "n = 2" "cs = [t]"
    by auto
  then have "(2, [t]) \<in> set (rx_match (Grp (Alt (Lit ''am'') (Lit ''pm''))) pos t)
      \<and> (0, []) \<in> set (rx_match Eol (pos + 2) (drop 2 t)) \<and> n = 2 + 0 \<and> cs = [t] @ []"
    unfolding mem_Eol by simp
  then show ?L unfolding mem_Seq by blast
qed

lemma ampm_ws_mem:
  "(n, cs) \<in> set (rx_match ampm_ws_body pos v) \<longleftrightarrow>
     (\<exists>hh suffix. cs = [hh, suffix] \<and> is_ampm_form v hh suffix \<and> n = length v)"
  (is "?L \<longleftrightarrow> ?R")
proof
  assume ?L
  then show ?R
    unfolding ampm_ws_body_def mem_Seq_GrpRep mem_Seq_Rep mem_suffix is_ampm_form_def digits_def
    by (auto simp: le_Suc_eq numeral_2_eq_2)
next
  assume ?R
  then obtain hh suffix where cs: "cs = [hh, suffix]" and f: "is_ampm_form v hh suffix"
      and n: "n = length v"
    by blast
  from f obtain ws where v: "v = hh @ ws @ suffix" and ws: "\<forall>c\<in>set ws. is_space c"
      and suffix: "suffix = ''am'' \<or> suffix = ''pm''"
    unfolding is_ampm_form_def by auto
  from f have hh: "1 \<le> length hh" "length hh \<le> 2" "\<forall>c\<in>set hh. is_digit c"
    unfolding is_ampm_form_def digits_def by auto
  let ?suffix = "Seq (Grp (Alt (Lit ''am'') (Lit ''pm''))) Eol"
  have "(2, [suffix]) \<in> set (rx_match ?suffix (pos + length hh + length ws) suffix)"
    unfolding mem_suffix using suffix by simp
  then have "(length ws + 2, [suffix]) \<in>
      set (rx_match (Seq (Rep is_space 0 None) ?suffix) (pos + length hh) (ws @ suffix))"
    using ws by (intro mem_Seq_RepI) simp_all
  then have "(length hh + (length ws + 2), [hh, suffix]) \<in>
      set (rx_match ampm_ws_body pos (hh @ ws @ suffix))"
    unfolding ampm_ws_body_def using hh by (intro mem_Seq_GrpRepI) simp_all
  moreover have "length suffix = 2" using suffix by auto
  ultimately show ?L unfolding cs n v by simp
qed

lemma ampm_mem:
  assumes "(n, cs) \<in> set (rx_match ampm_body pos v)"
  shows "\<exists>hh suffix. cs = [hh, suffix] \<and> is_ampm_form v hh suffix \<and> n = length v"
proof -
  from assms obtain g t n2 c2 where v: "v = g @ t" and g: "1 \<le> length g" "length g \<le> 2"
      "\<forall>c\<in>set g. is_digit c"
      and m: "(n2, c2) \<in> set (rx_match (Seq (Grp (Alt (Lit ''am'') (Lit ''pm''))) Eol) (pos + length g) t)"
      and n: "n = length g + n2" and cs: "cs = g # c2"
    unfolding ampm_body_def mem_Seq_GrpRep by auto
  from m have t: "t = ''am'' \<or> t = ''pm''" "n2 = 2" "c2 = [t]"
    unfolding mem_suffix by simp_all
  have "length g = 1 \<or> length g = 2" using g(1,2) by linarith
  moreover have "v = g @ [] @ t" using v by simp
  moreover have "\<forall>c\<in>set []. is_space c" by simp
  ultimately have "is_ampm_form v g t"
    unfolding is_ampm_form_def digits_def using g(3) t(1) by blast
  moreover have "length t = 2" using t(1) by auto
  ultimately show ?thesis using cs t(2,3) n v by simp
qed

lemma space_not_digit: "is_space c \<Longrightarrow> \<not> is_digit c"
  by (auto simp: is_space_def is_digit_def less_eq_char_def)

lemma ampm_rest_not_digit:
  assumes "\<forall>c\<in>set ws. is_space c" "suffix = ''am'' \<or> suffix = ''pm''"
  shows "ws @ suffix = [] \<or> \<not> is_digit (hd (ws @ suffix))"
proof (cases ws)
  case Nil
  then show ?thesis using assms(2) by (auto simp: is_digit_def less_eq_char_def)
next
  case (Cons c t)
  then show ?thesis using assms(1) space_not_digit by simp
qed

lemma ampm_unique:
  assumes "is_ampm_form v hh suffix" "is_ampm_form v hh' suffix'"
  shows "hh = hh' \<and> suffix = suffix'"
proof -
  from assms(1) obtain ws where v: "v = hh @ ws @ suffix"
      and d: "\<forall>c\<in>set hh. is_digit c" "\<forall>c\<in>set ws. is_space c" "suffix = ''am'' \<or> suffix = ''pm''"
    unfolding is_ampm_form_def digits_def by auto
  from assms(2) obtain ws' where v': "v = hh' @ ws' @ suffix'"
      and d': "\<forall>c\<in>set hh'. is_digit c" "\<forall>c\<in>set ws'. is_space c" "suffix' = ''am'' \<or> suffix' = ''pm''"
    unfolding is_ampm_form_def digits_def by auto
  have "takeWhile is_digit v = hh"
    unfolding v using d(1) ampm_rest_not_digit [OF d(2,3)] by (rule digits_prefix)
  moreover have "takeWhile is_digit v = hh'"
    unfolding v' using d'(1) ampm_rest_not_digit [OF d'(2,3)] by (rule digits_prefix)
  ultimately have hh: "hh = hh'" by simp
  with v v' have "ws @ suffix = ws' @ suffix'" by simp
  moreover have "length suffix = length suffix'" using d(3) d'(3) by auto
  ultimately have "suffix = suffix'" by simp
  with hh show ?thesis by simp
qed

lemma colon_ampm_disjoint:
  assumes "is_colon_form v hh mm" "is_ampm_form v hh' suffix"
  shows False
proof -
  from assms(1) obtain tl where v: "v = hh @ CHR '':'' # tl" and d: "\<forall>c\<in>set hh. is_digit c"
    unfolding is_colon_form_def digits_def by auto
  from assms(2) obtain ws where v': "v = hh' @ ws @ suffix"
      and d': "\<forall>c\<in>set hh'. is_digit c" "\<forall>c\<in>set ws. is_space c" "suffix = ''am'' \<or> suffix = ''pm''"
    unfolding is_ampm_form_def digits_def by auto
  have "takeWhile is_digit v = hh"
    unfolding v using d colon_not_digit by (intro digits_prefix) simp_all
  moreover have "takeWhile is_digit v = hh'"
    unfolding v' using d'(1) ampm_rest_not_digit [OF d'(2,3)] by (rule digits_prefix)
  ultimately have "hh = hh'" by simp
  with v v' have e: "CHR '':'' # tl = ws @ suffix" by simp
  show False
  proof (cases ws)
    case Nil
    with e d'(3) show False by auto
  next
    case (Cons c t)
    with e have "c = CHR '':''" by simp
    moreover have "is_space c" using Cons d'(2) by simp
    ultimately show False by (simp add: is_space_def)
  qed
qed

lemma ampm_Some:
  assumes "ampm_match v = Some ms"
  shows "\<exists>hh suffix. ms = [v, hh, suffix] \<and> is_ampm_form v hh suffix"
proof -
  from assms obtain body n cs xs where b: "body = ampm_ws_body \<or> body = ampm_body"
      and m: "rx_match body 0 v = (n, cs) # xs" and ms: "ms = take n v # cs"
    unfolding ampm_match_def ampm_ws_rx_body ampm_rx_body str_match_Bol
    by (auto split: list.splits option.splits)
  from m have "(n, cs) \<in> set (rx_match body 0 v)" by simp
  with b obtain hh suffix where "cs = [hh, suffix]" "is_ampm_form v hh suffix" "n = length v"
    using ampm_mem ampm_ws_mem by blast
  with ms show ?thesis by simp
qed

lemma ampm_None:
  assumes "ampm_match v = None"
  shows "\<not> is_ampm_form v hh suffix"
proof
  assume "is_ampm_form v hh suffix"
  then have "(length v, [hh, suffix]) \<in> set (rx_match ampm_ws_body 0 v)"
    unfolding ampm_ws_mem by blast
  moreover from assms have "rx_match ampm_ws_body 0 v = []"
    unfolding ampm_match_def ampm_ws_rx_body str_match_Bol by (auto split: list.splits option.splits)
  ultimately show False by simp
qed

lemma ampm_match_form:
  assumes "is_ampm_form v hh suffix"
  shows "ampm_match v = Some [v, hh, suffix]"
proof (cases "ampm_match v")
  case None
  then show ?thesis using ampm_None assms by blast
next
  case (Some ms)
  then obtain hh' suffix' where "ms = [v, hh', suffix']" "is_ampm_form v hh' suffix'"
    using ampm_Some by blast
  with assms Some show ?thesis using ampm_unique by blast
qed


lemma parseInt_digits: "digits s \<Longrightarrow> s \<noteq> [] \<Longrightarrow> parseInt s = Some (int (dec s))"
proof -
  assume "digits s" "s \<noteq> []"
  then have tw: "takeWhile is_digit s = s"
    unfolding digits_def by (intro takeWhile_eq_all_conv [THEN iffD2])
  show ?thesis unfolding parseInt_def tw using \<open>s \<noteq> []\<close> by simp
qed

lemma digit_char_0: "digit_char 0 = CHR ''0''"
  by code_simp

lemma String_nat_small: "n < 10 \<Longrightarrow> String_nat n = [digit_char n]"
  by (subst String_nat.simps) simp

lemma pad2_small: "n < 100 \<Longrightarrow> pad2 (Some (int n)) = two_digits n"
proof (cases "n < 10")
  case True
  then have "String_of (int n) = [digit_char n]"
    unfolding String_of_def by (simp add: String_nat_small)
  then show ?thesis
    using True unfolding pad2_def padStart_def two_digits_def by (simp add: digit_char_0)
next
  case False
  assume "n < 100"
  with False have "n div 10 < 10" "\<not> n < 10" by simp_all
  then have "String_nat n = [digit_char (n div 10), digit_char (n mod 10)]"
    by (subst String_nat.simps) (simp add: String_nat_small)
  then have "String_of (int n) = [digit_char (n div 10), digit_char (n mod 10)]"
    unfolding String_of_def by simp
  then show ?thesis
    unfolding pad2_def padStart_def two_digits_def by simp
qed

lemma time_colon:
  assumes "is_colon_form (toLowerCase (trim x)) hh mm"
  shows "normalizeTime x =
    (if dec hh \<le> 23 \<and> dec mm \<le> 59
     then Inr (two_digits (dec hh) @ '':'' @ two_digits (dec mm))
     else Inl InvalidTimeValue)"
proof -
  from assms have d: "digits hh" "hh \<noteq> []" "digits mm" "mm \<noteq> []"
    unfolding is_colon_form_def by auto
  have h: "parseInt hh = Some (int (dec hh))" and m: "parseInt mm = Some (int (dec mm))"
    using d by (simp_all add: parseInt_digits)
  have "normalizeTime x =
      (if out_of 0 23 (Some (int (dec hh))) \<or> out_of 0 59 (Some (int (dec mm))) then Inl InvalidTimeValue
       else Inr (pad2 (Some (int (dec hh))) @ '':'' @ pad2 (Some (int (dec mm)))))"
    unfolding normalizeTime_def Let_def colon_match [OF assms] by (simp add: h m)
  then show ?thesis
    by (auto simp: out_of_def pad2_small)
qed

lemma time_ampm:
  assumes "is_ampm_form (toLowerCase (trim x)) hh suffix"
  shows "normalizeTime x =
    (if 1 \<le> dec hh \<and> dec hh \<le> 12
     then Inr (two_digits (if suffix = ''pm'' then (if dec hh = 12 then 12 else dec hh + 12)
                           else (if dec hh = 12 then 0 else dec hh)) @ '':00'')
     else Inl InvalidTimeHour)"
proof -
  let ?v = "toLowerCase (trim x)"
  from assms have d: "digits hh" "hh \<noteq> []" and s: "suffix = ''am'' \<or> suffix = ''pm''"
    unfolding is_ampm_form_def by auto
  have h: "parseInt hh = Some (int (dec hh))"
    using d by (simp add: parseInt_digits)
  have c: "str_match ?v colon_rx = None"
  proof (cases "str_match ?v colon_rx")
    case (Some ms)
    then show ?thesis using colon_Some colon_ampm_disjoint assms by blast
  qed simp
  have a: "ampm_match ?v = Some [?v, hh, suffix]"
    using ampm_match_form [OF assms] .
  have "normalizeTime x =
      (if out_of 1 12 (Some (int (dec hh))) then Inl InvalidTimeHour
       else Inr (pad2 (if suffix = ''am'' \<and> (if suffix = ''pm'' \<and> dec hh \<noteq> 12 then Some (int (dec hh) + 12) else Some (int (dec hh))) = Some 12
                       then Some 0
                       else (if suffix = ''pm'' \<and> dec hh \<noteq> 12 then Some (int (dec hh) + 12) else Some (int (dec hh)))) @ '':00''))"
    unfolding normalizeTime_def Let_def c a by (simp add: h)
  moreover have "pad2 (Some (int (dec hh) + 12)) = two_digits (dec hh + 12)" if "dec hh \<le> 12"
    using that pad2_small [of "dec hh + 12"] by simp
  moreover have "pad2 (Some 0) = two_digits 0"
    using pad2_small [of 0] by simp
  moreover have "pad2 (Some 12) = two_digits 12"
    using pad2_small [of 12] by simp
  ultimately show ?thesis
    using s by (auto simp: out_of_def pad2_small)
qed

lemma time_other:
  assumes "\<forall>hh mm. \<not> is_colon_form (toLowerCase (trim x)) hh mm"
      and "\<forall>hh suffix. \<not> is_ampm_form (toLowerCase (trim x)) hh suffix"
  shows "normalizeTime x = Inl InvalidTimeFormat"
proof -
  let ?v = "toLowerCase (trim x)"
  have c: "str_match ?v colon_rx = None"
  proof (cases "str_match ?v colon_rx")
    case (Some ms)
    then show ?thesis using colon_Some assms(1) by blast
  qed simp
  have a: "ampm_match ?v = None"
  proof (cases "ampm_match ?v")
    case (Some ms)
    then show ?thesis using ampm_Some assms(2) by blast
  qed simp
  show ?thesis
    unfolding normalizeTime_def Let_def c a by simp
qed

lemma time_output:
  assumes "normalizeTime x = Inr out"
  shows "\<exists>h m. h \<le> 23 \<and> m \<le> 59 \<and> out = two_digits h @ '':'' @ two_digits m"
proof -
  let ?v = "toLowerCase (trim x)"
  consider (colon) hh mm where "is_colon_form ?v hh mm"
    | (ampm) hh suffix where "is_ampm_form ?v hh suffix"
    | (other) "\<forall>hh mm. \<not> is_colon_form ?v hh mm" "\<forall>hh suffix. \<not> is_ampm_form ?v hh suffix"
    by blast
  then show ?thesis
  proof cases
    case colon
    from time_colon [OF colon] assms
    have "dec hh \<le> 23 \<and> dec mm \<le> 59 \<and> out = two_digits (dec hh) @ '':'' @ two_digits (dec mm)"
      by (auto split: if_splits)
    then show ?thesis by blast
  next
    case ampm
    define h where "h = (if suffix = ''pm'' then (if dec hh = 12 then 12 else dec hh + 12)
                         else (if dec hh = 12 then 0 else dec hh))"
    from time_ampm [OF ampm] assms
    have r: "1 \<le> dec hh" "dec hh \<le> 12" "out = two_digits h @ '':00''"
      unfolding h_def by (auto split: if_splits)
    have "h \<le> 23" using r(1,2) unfolding h_def by auto
    moreover have "''00'' = two_digits 0" unfolding two_digits_def by (simp add: digit_char_0)
    then have "out = two_digits h @ '':'' @ two_digits 0" using r(3) by simp
    ultimately show ?thesis by (metis zero_le)
  next
    case other
    from time_other [OF other] assms show ?thesis by simp
  qed
qed

text \<open>The no-break space is white space for \<open>trim\<close> and for \<open>\s\<close>.\<close>

lemma normalizeTime_no_break_space:
  "normalizeTime [CHR ''9'', CHR 0xA0, CHR ''A'', CHR ''M''] = Inr ''09:00''
   \<and> normalizeTime (''9:30'' @ [CHR 0xA0]) = Inr ''09:30''"
  by code_simp

text \<open>
  C1. On the trimmed, lowercased input \<open>v\<close>: if \<open>v\<close> has the colon form with hour digits
  \<open>hh\<close> and minute digits \<open>mm\<close> (seconds, if any, ignored), the result is the zero-padded
  \<open>HH:MM\<close> when the hour is at most 23 and the minute at most 59, and a failure otherwise;
  if \<open>v\<close> has the am/pm form, the result fails unless the hour is in 1..12, and otherwise
  is the zero-padded hour (pm adds 12 unless the hour is 12, am maps 12 to 0) followed by
  \<open>:00\<close>; every other input fails; every result is a zero-padded \<open>HH:MM\<close>; and the six
  examples of the specification hold.
\<close>

theorem normalizeTime_shapes:
  "(is_colon_form (toLowerCase (trim x)) hh mm \<longrightarrow>
      normalizeTime x =
        (if dec hh \<le> 23 \<and> dec mm \<le> 59
         then Inr (two_digits (dec hh) @ '':'' @ two_digits (dec mm))
         else Inl InvalidTimeValue))
   \<and> (is_ampm_form (toLowerCase (trim x)) hh suffix \<longrightarrow>
      normalizeTime x =
        (if 1 \<le> dec hh \<and> dec hh \<le> 12
         then Inr (two_digits (if suffix = ''pm'' then (if dec hh = 12 then 12 else dec hh + 12)
                               else (if dec hh = 12 then 0 else dec hh)) @ '':00'')
         else Inl InvalidTimeHour))
   \<and> ((\<forall>hh mm. \<not> is_colon_form (toLowerCase (trim x)) hh mm)
        \<and> (\<forall>hh suffix. \<not> is_ampm_form (toLowerCase (trim x)) hh suffix) \<longrightarrow>
      normalizeTime x = Inl InvalidTimeFormat)
   \<and> (\<forall>out. normalizeTime x = Inr out \<longrightarrow>
        (\<exists>h m. h \<le> 23 \<and> m \<le> 59 \<and> out = two_digits h @ '':'' @ two_digits m))
   \<and> normalizeTime ''9:30'' = Inr ''09:30''
   \<and> normalizeTime ''9am'' = Inr ''09:00''
   \<and> normalizeTime ''12am'' = Inr ''00:00''
   \<and> normalizeTime ''12pm'' = Inr ''12:00''
   \<and> normalizeTime ''25:00'' = Inl InvalidTimeValue
   \<and> normalizeTime ''13pm'' = Inl InvalidTimeHour"
proof -
  have e1: "normalizeTime ''9:30'' = Inr ''09:30''" by code_simp
  have e2: "normalizeTime ''9am'' = Inr ''09:00''" by code_simp
  have e3: "normalizeTime ''12am'' = Inr ''00:00''" by code_simp
  have e4: "normalizeTime ''12pm'' = Inr ''12:00''" by code_simp
  have e5: "normalizeTime ''25:00'' = Inl InvalidTimeValue" by code_simp
  have e6: "normalizeTime ''13pm'' = Inl InvalidTimeHour" by code_simp
  show ?thesis
    using time_colon [of x hh mm] time_ampm [of x hh suffix] time_other [of x] time_output [of x]
      e1 e2 e3 e4 e5 e6
    by blast
qed

theorem normalizeTime_shapes_witness:
  "is_colon_form (toLowerCase (trim ''7:05:59'')) ''7'' ''05''
   \<and> normalizeTime ''7:05:59'' = Inr ''07:05''
   \<and> is_ampm_form (toLowerCase (trim '' 7 PM '')) ''7'' ''pm''
   \<and> normalizeTime '' 7 PM '' = Inr ''19:00''
   \<and> normalizeTime ''noon'' = Inl InvalidTimeFormat"
proof -
  have v1: "toLowerCase (trim ''7:05:59'') = ''7:05:59''" by code_simp
  have v2: "toLowerCase (trim '' 7 PM '') = ''7 pm''" by code_simp
  have v3: "toLowerCase (trim ''noon'') = ''noon''" by code_simp
  have d: "digits ''7''" "digits ''05''" "digits ''59''" by code_simp+
  have f1: "is_colon_form (toLowerCase (trim ''7:05:59'')) ''7'' ''05''"
    unfolding v1 is_colon_form_def using d by auto
  have "is_space (CHR '' '')" by code_simp
  then have "(\<forall>c\<in>set '' ''. is_space c) \<and> ''7 pm'' = ''7'' @ '' '' @ ''pm''" by simp
  then have "\<exists>ws. (\<forall>c\<in>set ws. is_space c) \<and> ''7 pm'' = ''7'' @ ws @ ''pm''"
    by (rule exI [of _ "'' ''"])
  then have f2: "is_ampm_form (toLowerCase (trim '' 7 PM '')) ''7'' ''pm''"
    unfolding v2 is_ampm_form_def using d(1) by simp
  have "str_match ''noon'' colon_rx = None" by code_simp
  then have n1: "\<forall>hh mm. \<not> is_colon_form (toLowerCase (trim ''noon'')) hh mm"
    unfolding v3 using colon_None by blast
  have "ampm_match ''noon'' = None" by code_simp
  then have n2: "\<forall>hh suffix. \<not> is_ampm_form (toLowerCase (trim ''noon'')) hh suffix"
    unfolding v3 using ampm_None by blast
  have c1: "dec ''7'' = 7" "dec ''05'' = 5" "two_digits 7 = ''07''" "two_digits 5 = ''05''"
      "two_digits 19 = ''19''"
    by code_simp+
  have r1: "normalizeTime ''7:05:59'' = Inr ''07:05''"
    using normalizeTime_shapes [of "''7:05:59''" "''7''" "''05''"] f1 by (simp add: c1)
  have r2: "normalizeTime '' 7 PM '' = Inr ''19:00''"
    using normalizeTime_shapes [of "'' 7 PM ''" "''7''" _ "''pm''"] f2 by (simp add: c1)
  have r3: "normalizeTime ''noon'' = Inl InvalidTimeFormat"
    using normalizeTime_shapes [of "''noon''"] n1 n2 by blast
  from f1 r1 f2 r2 r3 show ?thesis by blast
qed

section \<open>Properties of the date normalization\<close>

lemma normalizeDate_fails_iff: "(\<exists>e. normalizeDate p x = Inl e) \<longleftrightarrow> p (trim x) = None"
  by (auto simp: normalizeDate_def Let_def split: option.splits)

lemma normalizeDate_error: "normalizeDate p x = Inl e \<Longrightarrow> e = InvalidDateFormat"
  by (auto simp: normalizeDate_def Let_def split: option.splits)

lemma normalizeDate_fields:
  "p (trim x) = Some t \<Longrightarrow>
     normalizeDate p x =
       Inr (String_of (getUTCFullYear t) @ ''-''
            @ padStart 2 (CHR ''0'') (String_of (getUTCMonth t + 1)) @ ''-''
            @ padStart 2 (CHR ''0'') (String_of (getUTCDate t)))"
  by (simp add: normalizeDate_def Let_def)

lemma normalizeDate_iso_example:
  "normalizeDate (engine_Date_parse tz) ''2026-03-05'' = Inr ''2026-03-05''"
proof -
  have m: "str_match ''2026-03-05'' (ymd_rx ''-'') = Some [''2026-03-05'', ''2026'', ''03'', ''05'']"
    by code_simp
  have t: "trim ''2026-03-05'' = ''2026-03-05''" by code_simp
  have "midnight (int (dec ''2026'')) (int (dec ''03'')) (int (dec ''05'')) = Some 1772668800000"
    by code_simp
  then have p: "engine_Date_parse tz ''2026-03-05'' = Some 1772668800000"
    unfolding engine_Date_parse_def m by simp
  have "engine_Date_parse tz (trim ''2026-03-05'') = Some 1772668800000"
    by (simp only: t p)
  then have "normalizeDate (engine_Date_parse tz) ''2026-03-05'' =
      Inr (String_of (getUTCFullYear 1772668800000) @ ''-''
           @ padStart 2 (CHR ''0'') (String_of (getUTCMonth 1772668800000 + 1)) @ ''-''
           @ padStart 2 (CHR ''0'') (String_of (getUTCDate 1772668800000)))"
    by (rule normalizeDate_fields)
  also have "\<dots> = Inr ''2026-03-05''"
    by code_simp
  finally show ?thesis .
qed

lemma normalizeDate_utc_host_examples:
  "normalizeDate (engine_Date_parse 0) ''March 5, 2026'' = Inr ''2026-03-05''
   \<and> normalizeDate (engine_Date_parse 0) ''2026/03/05'' = Inr ''2026-03-05''
   \<and> normalizeDate (engine_Date_parse 0) ''not-a-date'' = Inl InvalidDateFormat"
  by code_simp

text \<open>
  C2. \<open>normalizeDate\<close> fails exactly when the parser rejects the trimmed input, and
  otherwise formats the UTC calendar fields of the parsed time value
  (\<open>normalizeDate_fails_iff\<close>, \<open>normalizeDate_fields\<close>); \<open>"2026-03-05"\<close> gives
  \<open>"2026-03-05"\<close> on every host (\<open>normalizeDate_iso_example\<close>). But \<open>"March 5, 2026"\<close>
  and \<open>"2026/03/05"\<close> are read as midnight local time, so on a host seven hours east of
  UTC their UTC calendar date is the day before: the result is \<open>"2026-03-04"\<close>, not the
  \<open>"2026-03-05"\<close> of the claim.
\<close>

theorem normalizeDate_east_of_utc:
  "normalizeDate (engine_Date_parse 420) ''March 5, 2026'' = Inr ''2026-03-04''
   \<and> normalizeDate (engine_Date_parse 420) ''2026/03/05'' = Inr ''2026-03-04''"
  by code_simp

section \<open>Properties of the pre-save hook\<close>

lemma check_required_None:
  "check_required ks f = None \<longleftrightarrow> (\<forall>k\<in>set ks. nonEmptyString (f k))"
  by (induction ks) (auto simp: nonEmptyString_def split: option.splits jsval.splits)

lemma check_required_Some:
  "check_required ks f = Some e \<longleftrightarrow>
     (\<exists>i<length ks. e = FieldRequired (ks ! i) \<and> \<not> nonEmptyString (f (ks ! i))
        \<and> (\<forall>j<i. nonEmptyString (f (ks ! j))))"
proof (induction ks)
  case Nil
  then show ?case by simp
next
  case (Cons k ks)
  show ?case
  proof (cases "nonEmptyString (f k)")
    case True
    then have "check_required (k # ks) f = check_required ks f"
      by (auto simp: nonEmptyString_def split: option.splits jsval.splits)
    moreover have "(\<exists>i<length (k # ks). e = FieldRequired ((k # ks) ! i) \<and> \<not> nonEmptyString (f ((k # ks) ! i))
        \<and> (\<forall>j<i. nonEmptyString (f ((k # ks) ! j))))
      \<longleftrightarrow> (\<exists>i<length ks. e = FieldRequired (ks ! i) \<and> \<not> nonEmptyString (f (ks ! i))
        \<and> (\<forall>j<i. nonEmptyString (f (ks ! j))))" (is "?A \<longleftrightarrow> ?B")
    proof
      assume ?A
      then obtain i where i: "i < length (k # ks)" "e = FieldRequired ((k # ks) ! i)"
          "\<not> nonEmptyString (f ((k # ks) ! i))" "\<forall>j<i. nonEmptyString (f ((k # ks) ! j))"
        by blast
      with True obtain i' where i': "i = Suc i'" by (cases i) auto
      have "\<forall>j<i'. nonEmptyString (f (ks ! j))"
      proof (intro allI impI)
        fix j assume "j < i'"
        then have "Suc j < i" using i' by simp
        with i(4) have "nonEmptyString (f ((k # ks) ! Suc j))" by blast
        then show "nonEmptyString (f (ks ! j))" by simp
      qed
      with i i' show ?B by auto
    next
      assume ?B
      then obtain i where i: "i < length ks" "e = FieldRequired (ks ! i)"
          "\<not> nonEmptyString (f (ks ! i))" "\<forall>j<i. nonEmptyString (f (ks ! j))"
        by blast
      have "\<forall>j<Suc i. nonEmptyString (f ((k # ks) ! j))"
      proof (intro allI impI)
        fix j assume "j < Suc i"
        then show "nonEmptyString (f ((k # ks) ! j))"
          using True i(4) by (cases j) auto
      qed
      with i have "Suc i < length (k # ks) \<and> e = FieldRequired ((k # ks) ! Suc i)
          \<and> \<not> nonEmptyString (f ((k # ks) ! Suc i)) \<and> (\<forall>j<Suc i. nonEmptyString (f ((k # ks) ! j)))"
        by simp
      then show ?A by blast
    qed
    ultimately show ?thesis using Cons.IH by simp
  next
    case False
    then have c: "check_required (k # ks) f = Some (FieldRequired k)"
      by (auto simp: nonEmptyString_def split: option.splits jsval.splits)
    have "(\<exists>i<length (k # ks). e = FieldRequired ((k # ks) ! i) \<and> \<not> nonEmptyString (f ((k # ks) ! i))
        \<and> (\<forall>j<i. nonEmptyString (f ((k # ks) ! j)))) \<longleftrightarrow> e = FieldRequired k" (is "?A \<longleftrightarrow> ?B")
    proof
      assume ?A
      then obtain i where i: "i < length (k # ks)" "e = FieldRequired ((k # ks) ! i)"
          "\<forall>j<i. nonEmptyString (f ((k # ks) ! j))"
        by blast
      have "i = 0"
      proof (rule ccontr)
        assume "i \<noteq> 0"
        then have "0 < i" by simp
        with i(3) have "nonEmptyString (f ((k # ks) ! 0))" by blast
        with False show False by simp
      qed
      with i(2) show ?B by simp
    next
      assume ?B
      with False have "0 < length (k # ks) \<and> e = FieldRequired ((k # ks) ! 0)
          \<and> \<not> nonEmptyString (f ((k # ks) ! 0)) \<and> (\<forall>j<0. nonEmptyString (f ((k # ks) ! j)))"
        by simp
      then show ?A by blast
    qed
    with c show ?thesis by auto
  qed
qed

lemma recheck_Inl:
  "recheck d = Inl e \<longleftrightarrow>
     (\<exists>i<length requiredStrings. e = FieldRequired (requiredStrings ! i)
        \<and> \<not> nonEmptyString (props d (requiredStrings ! i))
        \<and> (\<forall>j<i. nonEmptyString (props d (requiredStrings ! j))))
     \<or> (e = AgendaRequired \<and> (\<forall>k\<in>set requiredStrings. nonEmptyString (props d k))
          \<and> empty_array (props d Agenda))
     \<or> (e = TagsRequired \<and> (\<forall>k\<in>set requiredStrings. nonEmptyString (props d k))
          \<and> \<not> empty_array (props d Agenda) \<and> empty_array (props d Tags))"
proof (cases "check_required requiredStrings (props d)")
  case None
  then have a: "\<forall>k\<in>set requiredStrings. nonEmptyString (props d k)"
    by (simp only: check_required_None)
  then have "\<not> (\<exists>i<length requiredStrings. e = FieldRequired (requiredStrings ! i)
        \<and> \<not> nonEmptyString (props d (requiredStrings ! i))
        \<and> (\<forall>j<i. nonEmptyString (props d (requiredStrings ! j))))"
    by (meson nth_mem)
  moreover have "recheck d = Inl e \<longleftrightarrow>
      (e = AgendaRequired \<and> empty_array (props d Agenda))
      \<or> (e = TagsRequired \<and> \<not> empty_array (props d Agenda) \<and> empty_array (props d Tags))"
    unfolding recheck_def None by auto
  ultimately show ?thesis using a by blast
next
  case (Some e')
  then have n: "\<not> (\<forall>k\<in>set requiredStrings. nonEmptyString (props d k))"
    using check_required_None [of requiredStrings "props d"] by simp
  have "recheck d = Inl e \<longleftrightarrow> check_required requiredStrings (props d) = Some e"
    unfolding recheck_def Some by auto
  then show ?thesis
    unfolding check_required_Some using n by blast
qed

lemma key_name_inj: "key_name k = key_name k' \<Longrightarrow> k = k'"
  by (cases k; cases k') (simp_all add: key_name_def)

lemma field_message_inj:
  assumes "hook_message (FieldRequired k) = hook_message (FieldRequired k')"
  shows "k = k'"
proof -
  from assms have "key_name k @ [CHR 0x22] @ '' is required and cannot be empty'' =
      key_name k' @ [CHR 0x22] @ '' is required and cannot be empty''"
    by (simp add: hook_message_def)
  then have "key_name k = key_name k'" by simp
  then show ?thesis by (rule key_name_inj)
qed

text \<open>
  C5. After the normalizing part, the hook checks the required string fields in the
  declared order title, description, overview, image, venue, location, date, time, mode,
  audience, organizer, then the agenda and then the tags. It fails with the error of
  the first field that is violated, and with no other; the message of that error is
  \<open>Field "k" is required and cannot be empty\<close> with the name \<open>k\<close> of the field as the
  source spells it, so different fields have different messages; the reported field is a
  function of the record.
\<close>

theorem recheck_first_violation:
  "requiredStrings =
     [Title, Description, Overview, Image, Venue, Location, Date, Time, Mode, Audience, Organizer]
   \<and> preSave p d = (case normalize_doc p d of Inl e \<Rightarrow> Inl e | Inr d' \<Rightarrow> recheck d')
   \<and> (recheck d' = Inl e \<longleftrightarrow>
        (\<exists>i<length requiredStrings. e = FieldRequired (requiredStrings ! i)
           \<and> \<not> nonEmptyString (props d' (requiredStrings ! i))
           \<and> (\<forall>j<i. nonEmptyString (props d' (requiredStrings ! j))))
        \<or> (e = AgendaRequired \<and> (\<forall>k\<in>set requiredStrings. nonEmptyString (props d' k))
             \<and> empty_array (props d' Agenda))
        \<or> (e = TagsRequired \<and> (\<forall>k\<in>set requiredStrings. nonEmptyString (props d' k))
             \<and> \<not> empty_array (props d' Agenda) \<and> empty_array (props d' Tags)))
   \<and> hook_message (FieldRequired k) =
        Some (''Field '' @ [CHR 0x22] @ key_name k @ [CHR 0x22] @ '' is required and cannot be empty'')
   \<and> map key_name requiredStrings =
        [''title'', ''description'', ''overview'', ''image'', ''venue'', ''location'', ''date'',
         ''time'', ''mode'', ''audience'', ''organizer'']
   \<and> (hook_message (FieldRequired k) = hook_message (FieldRequired k') \<longrightarrow> k = k')
   \<and> hook_message AgendaRequired = Some ''Agenda is required and cannot be empty''
   \<and> hook_message TagsRequired = Some ''Tags are required and cannot be empty''"
proof -
  have n: "map key_name requiredStrings =
        [''title'', ''description'', ''overview'', ''image'', ''venue'', ''location'', ''date'',
         ''time'', ''mode'', ''audience'', ''organizer'']"
    by (simp add: requiredStrings_def key_name_def)
  have m: "hook_message (FieldRequired k) = hook_message (FieldRequired k') \<longrightarrow> k = k'"
    using field_message_inj by blast
  show ?thesis
    using recheck_Inl [of d' e] n m
    by (simp add: requiredStrings_def preSave_def hook_message_def)
qed

section \<open>Properties of \<open>Event.create\<close>\<close>

lemma hook_slug_props: "hook_slug d = Inr d1 \<Longrightarrow> k \<noteq> Slug \<Longrightarrow> props d1 k = props d k"
  by (auto simp: hook_slug_def assign_def split: if_splits option.splits jsval.splits)

lemma hook_date_props: "hook_date p d = Inr d1 \<Longrightarrow> k \<noteq> Date \<Longrightarrow> props d1 k = props d k"
  by (auto simp: hook_date_def assign_def split: if_splits option.splits jsval.splits sum.splits)

lemma hook_time_props: "hook_time d = Inr d1 \<Longrightarrow> k \<noteq> Time \<Longrightarrow> props d1 k = props d k"
  by (auto simp: hook_time_def assign_def split: if_splits option.splits jsval.splits sum.splits)

lemma hook_array_props:
  "props (hook_array k d) k' =
     (if k' = k then (case props d k of Some (Arr xs) \<Rightarrow> Some (Arr (clean xs)) | v \<Rightarrow> v)
      else props d k')"
  by (auto simp: hook_array_def assign_def split: option.splits jsval.splits)

lemma normalize_doc_array:
  assumes "normalize_doc p d = Inr d'" "k = Agenda \<or> k = Tags"
  shows "props d' k = (case props d k of Some (Arr xs) \<Rightarrow> Some (Arr (clean xs)) | v \<Rightarrow> v)"
proof -
  from assms(1) obtain d1 d2 d3 where s: "hook_slug d = Inr d1" "hook_date p d1 = Inr d2"
      "hook_time d2 = Inr d3" "d' = hook_array Tags (hook_array Agenda d3)"
    unfolding normalize_doc_def by (auto split: sum.splits)
  from assms(2) have k: "k \<noteq> Slug" "k \<noteq> Date" "k \<noteq> Time" by auto
  have "props d3 k = props d k"
    using hook_slug_props [OF s(1) k(1)] hook_date_props [OF s(2) k(2)] hook_time_props [OF s(3) k(3)]
    by simp
  then show ?thesis
    unfolding s(4) using assms(2) by (auto simp: hook_array_props)
qed

lemma recheck_Inr: "recheck d = Inr d' \<Longrightarrow> d' = d \<and> \<not> empty_array (props d Agenda) \<and> \<not> empty_array (props d Tags)"
  by (auto simp: recheck_def split: option.splits if_splits)

lemma preSave_Inr:
  "preSave p d = Inr d' \<Longrightarrow> normalize_doc p d = Inr d' \<and> recheck d' = Inr d'"
  by (auto simp: preSave_def split: sum.splits dest: recheck_Inr)

lemma hook_cleans_array:
  assumes "k = Agenda \<or> k = Tags" "props d k = Some (Arr xs)" "preSave p d = Inr d'"
  shows "props d' k = Some (Arr (clean xs)) \<and> clean xs \<noteq> []"
proof -
  from preSave_Inr [OF assms(3)] have n: "normalize_doc p d = Inr d'" and r: "recheck d' = Inr d'"
    by simp_all
  have a: "props d' k = Some (Arr (clean xs))"
    using normalize_doc_array [OF n assms(1)] assms(2) by simp
  from recheck_Inr [OF r] assms(1) have "\<not> empty_array (props d' k)" by auto
  with a show ?thesis by (simp add: empty_array_def)
qed

lemma hook_rejects_blank_array:
  assumes "k = Agenda \<or> k = Tags" "props d k = Some (Arr xs)" "clean xs = []"
  shows "\<exists>e. preSave p d = Inl e"
proof (cases "preSave p d")
  case (Inl e)
  then show ?thesis by blast
next
  case (Inr d')
  from hook_cleans_array [OF assms(1,2) Inr] assms(3) show ?thesis by simp
qed

lemma create_rejects_blank_element:
  assumes "k = Agenda \<or> k = Tags" "data k = Some (Arr xs)" "xs = [] \<or> (\<exists>x\<in>set xs. trim x = [])"
  shows "\<exists>ks. Event_create w st data = (Inl (ValidationError ks), st) \<and> k \<in> ks"
proof -
  from assms(1) have nk: "k \<notin> set string_paths" "k \<noteq> Slug" "k \<in> set schema_paths"
    by (auto simp: string_paths_def schema_paths_def)
  have c: "props (construct data) k = Some (Arr (map trim xs))"
    using nk(1) assms(2) by (simp add: construct_def apply_setter_def)
  have t: "trim [] = []" by (simp add: trim_def)
  have "\<not> arrayOfNonEmptyStrings (Some (Arr (map trim xs)))"
  proof (cases "xs = []")
    case True
    then show ?thesis by (simp add: arrayOfNonEmptyStrings_def)
  next
    case False
    with assms(3) obtain x where x: "x \<in> set xs" "trim x = []" by blast
    then have "trim (trim x) = []" using t by simp
    with x(1) have "\<exists>v\<in>set (map trim xs). length (trim v) = 0" by auto
    then show ?thesis by (auto simp: arrayOfNonEmptyStrings_def list_all_iff)
  qed
  then have "\<not> path_valid k (props (construct data) k)"
    unfolding c path_valid_def using nk by simp
  then have m: "k \<in> set (filter (\<lambda>k. \<not> path_valid k (props (construct data) k)) schema_paths)"
    using nk(3) by simp
  then have "filter (\<lambda>k. \<not> path_valid k (props (construct data) k)) schema_paths \<noteq> []"
    by (metis empty_iff list.set(1))
  then have "validate (construct data) =
      Inl (ValidationError (set (filter (\<lambda>k. \<not> path_valid k (props (construct data) k)) schema_paths)))"
    unfolding validate_def Let_def by simp
  then have "Event_create w st data =
      (Inl (ValidationError (set (filter (\<lambda>k. \<not> path_valid k (props (construct data) k)) schema_paths))), st)"
    unfolding Event_create_def by simp
  with m show ?thesis by blast
qed

lemma hook_example_padded:
  "(case preSave (engine_Date_parse 0) (raw_doc [''  '', ''Talk 1'']) of
      Inl e \<Rightarrow> False
    | Inr d' \<Rightarrow> props d' Agenda = Some (Arr [''Talk 1'']))"
  by code_simp

lemma hook_example_blank:
  "preSave (engine_Date_parse 0) (raw_doc [''  '']) = Inl AgendaRequired"
proof -
  have "(case preSave (engine_Date_parse 0) (raw_doc [''  '']) of
           Inl e \<Rightarrow> e = AgendaRequired | Inr d' \<Rightarrow> False)"
    by code_simp
  then show ?thesis by (auto split: sum.splits)
qed

lemma create_example_padded:
  "Event_create healthy [] (sample_event [''  '', ''Talk 1'']) = (Inl (ValidationError {Agenda}), [])"
proof -
  have "(case Event_create healthy [] (sample_event [''  '', ''Talk 1'']) of
           (Inl e, st) \<Rightarrow> e = ValidationError {Agenda} \<and> length st = 0
         | (Inr d', st) \<Rightarrow> False)"
    by code_simp
  then show ?thesis by (auto split: prod.splits sum.splits)
qed

lemma hook_example_no_break_space:
  "clean [[CHR 0xA0], ''Talk 1''] = [''Talk 1'']
   \<and> (case preSave (engine_Date_parse 0) (raw_doc [[CHR 0xA0], ''Talk 1'']) of
         Inl e \<Rightarrow> False
       | Inr d' \<Rightarrow> props d' Agenda = Some (Arr [''Talk 1'']))
   \<and> (case Event_create healthy [] (sample_event [[CHR 0xA0], ''Talk 1'']) of
         (Inl e, st) \<Rightarrow> e = ValidationError {Agenda} \<and> length st = 0
       | (Inr d', st) \<Rightarrow> False)"
  by code_simp

lemma create_example_blank:
  "Event_create healthy [] (sample_event [''  '']) = (Inl (ValidationError {Agenda}), [])"
proof -
  have "(case Event_create healthy [] (sample_event [''  '']) of
           (Inl e, st) \<Rightarrow> e = ValidationError {Agenda} \<and> length st = 0
         | (Inr d', st) \<Rightarrow> False)"
    by code_simp
  then show ?thesis by (auto split: prod.splits sum.splits)
qed

text \<open>
  C4, as the claim states it, fails: at creation the schema validation comes before the
  hook, and it rejects the agenda \<open>["  ", "Talk 1"]\<close>, whose first element is empty
  after trimming; the event is not accepted.
\<close>

theorem create_rejects_padded_agenda:
  "fst (Event_create healthy [] (sample_event [''  '', ''Talk 1''])) = Inl (ValidationError {Agenda})
   \<and> snd (Event_create healthy [] (sample_event [''  '', ''Talk 1''])) = []"
  by (simp add: create_example_padded)

text \<open>
  C4, amended. The pre-save hook trims every element of \<open>agenda\<close> and \<open>tags\<close> and drops
  the empty results before its own non-empty check: where the hook succeeds the array is
  the cleaned one and is not empty, and where the cleaned array is empty the hook fails;
  so the hook maps the agenda \<open>["  ", "Talk 1"]\<close> to \<open>["Talk 1"]\<close> and fails with the
  empty-agenda error on \<open>["  "]\<close>. During event creation the schema validation runs
  before the hook and rejects an \<open>agenda\<close> or \<open>tags\<close> array that is empty or has an
  element that is empty after trimming, leaving the store as it was: both example events
  are rejected with the validation error for \<open>agenda\<close>.
\<close>

theorem agenda_cleanup_amended:
  "((k = Agenda \<or> k = Tags) \<and> props d k = Some (Arr xs) \<and> preSave p d = Inr d' \<longrightarrow>
      props d' k = Some (Arr (clean xs)) \<and> clean xs \<noteq> [])
   \<and> ((k = Agenda \<or> k = Tags) \<and> props d k = Some (Arr xs) \<and> clean xs = [] \<longrightarrow>
      (\<exists>e. preSave p d = Inl e))
   \<and> ((k = Agenda \<or> k = Tags) \<and> data k = Some (Arr xs) \<and> (xs = [] \<or> (\<exists>x\<in>set xs. trim x = [])) \<longrightarrow>
      (\<exists>ks. Event_create w st data = (Inl (ValidationError ks), st) \<and> k \<in> ks))
   \<and> (case preSave (engine_Date_parse 0) (raw_doc [''  '', ''Talk 1'']) of
         Inl e \<Rightarrow> False
       | Inr d' \<Rightarrow> props d' Agenda = Some (Arr [''Talk 1'']))
   \<and> preSave (engine_Date_parse 0) (raw_doc [''  '']) = Inl AgendaRequired
   \<and> Event_create healthy [] (sample_event [''  '', ''Talk 1'']) = (Inl (ValidationError {Agenda}), [])
   \<and> Event_create healthy [] (sample_event [''  '']) = (Inl (ValidationError {Agenda}), [])"
  using hook_cleans_array [of k d xs p d'] hook_rejects_blank_array [of k d xs p]
    create_rejects_blank_element [of k data xs w st]
    hook_example_padded hook_example_blank create_example_padded create_example_blank
  by blast

theorem agenda_cleanup_amended_witness:
  "(\<exists>d'. preSave (engine_Date_parse 0) (raw_doc [''  '', ''Talk 1'']) = Inr d'
        \<and> props d' Agenda = Some (Arr (clean [''  '', ''Talk 1'']))
        \<and> clean [''  '', ''Talk 1''] = [''Talk 1''])
   \<and> clean [''  ''] = []
   \<and> (\<exists>e. preSave (engine_Date_parse 0) (raw_doc [''  '']) = Inl e)
   \<and> trim ''  '' = []
   \<and> (\<exists>ks. Event_create healthy [] (sample_event [''  '', ''Talk 1'']) = (Inl (ValidationError ks), [])
        \<and> Agenda \<in> ks)"
proof -
  have c1: "clean [''  '', ''Talk 1''] = [''Talk 1'']" and c2: "clean [''  ''] = []"
      and t: "trim ''  '' = []"
    by code_simp+
  have p1: "props (raw_doc [''  '', ''Talk 1'']) Agenda = Some (Arr [''  '', ''Talk 1''])"
      and p2: "props (raw_doc [''  '']) Agenda = Some (Arr [''  ''])"
      and p3: "sample_event [''  '', ''Talk 1''] Agenda = Some (Arr [''  '', ''Talk 1''])"
    by (simp_all add: raw_doc_def sample_event_def)
  obtain d' where d': "preSave (engine_Date_parse 0) (raw_doc [''  '', ''Talk 1'']) = Inr d'"
    using hook_example_padded by (cases "preSave (engine_Date_parse 0) (raw_doc [''  '', ''Talk 1''])") auto
  have a: "props d' Agenda = Some (Arr (clean [''  '', ''Talk 1'']))"
    using agenda_cleanup_amended [of Agenda "raw_doc [''  '', ''Talk 1'']" "[''  '', ''Talk 1'']"
        "engine_Date_parse 0" d'] p1 d'
    by blast
  have b: "\<exists>e. preSave (engine_Date_parse 0) (raw_doc [''  '']) = Inl e"
    using agenda_cleanup_amended [of Agenda "raw_doc [''  '']" "[''  '']" "engine_Date_parse 0"] p2 c2
    by blast
  have "\<exists>x\<in>set [''  '', ''Talk 1'']. trim x = []" using t by simp
  then have c: "\<exists>ks. Event_create healthy [] (sample_event [''  '', ''Talk 1'']) = (Inl (ValidationError ks), [])
        \<and> Agenda \<in> ks"
    using agenda_cleanup_amended [of Agenda _ "[''  '', ''Talk 1'']" _ _
        "sample_event [''  '', ''Talk 1'']" healthy "[]"] p3
    by blast
  from d' a c1 c2 b t c show ?thesis by blast
qed
















section \<open>Properties of the request handlers\<close>

lemma POST_unreachable:
  "\<not> connect_ok w \<Longrightarrow> POST w st req = (\<lparr>status = 500, payload = InternalServerError ConnectionError\<rparr>, st)"
  by (simp add: POST_def)

lemma POST_reached:
  assumes "connect_ok w"
  shows "fst (POST w st req) =
    (if is_json req
     then (case json req of
             None \<Rightarrow> \<lparr>status = 500, payload = InternalServerError BodyError\<rparr>
           | Some data \<Rightarrow>
               (case fst (Event_create_body w st data) of
                  Inl e \<Rightarrow> \<lparr>status = 500, payload = InternalServerError e\<rparr>
                | Inr c \<Rightarrow> \<lparr>status = 201, payload = Created c\<rparr>))
     else if is_multipart req
     then (case form req of
             None \<Rightarrow> \<lparr>status = 400, payload = InvalidFormData\<rparr>
           | Some data \<Rightarrow>
               (case fst (Event_create_body w st (Object data)) of
                  Inl e \<Rightarrow> \<lparr>status = 500, payload = InternalServerError e\<rparr>
                | Inr c \<Rightarrow> \<lparr>status = 201, payload = Created c\<rparr>))
     else \<lparr>status = 415, payload = UnsupportedContentType\<rparr>)"
  using assms
  by (auto simp: POST_def Let_def is_json_def is_multipart_def split: option.splits prod.splits sum.splits)

lemma create_body_object:
  "fst (Event_create_body w st (Object x)) =
     (case fst (Event_create w st x) of Inl e \<Rightarrow> Inl e | Inr d \<Rightarrow> Inr (Object (props d)))"
  by (auto simp: Event_create_body_def split: prod.splits sum.splits)

lemma text_plain_unsupported: "\<not> is_json text_plain \<and> \<not> is_multipart text_plain"
  by code_simp

text \<open>
  C6, as the claim states it, fails: the handler connects before it looks at the
  \<open>Content-Type\<close>, so when the connection fails a \<open>text/plain\<close> request gets 500, not
  415.
\<close>

theorem POST_text_plain_unreachable:
  "\<not> (status (fst (POST (healthy\<lparr>connect_ok := False\<rparr>) [] text_plain)) = 415 \<longleftrightarrow>
        \<not> is_json text_plain \<and> \<not> is_multipart text_plain)"
proof -
  have "status (fst (POST (healthy\<lparr>connect_ok := False\<rparr>) [] text_plain)) = 500"
    by (simp add: POST_unreachable)
  then show ?thesis using text_plain_unsupported by simp
qed

text \<open>
  C6, amended. When the database connection cannot be established the create handler
  answers 500 whatever the \<open>Content-Type\<close>. Once it is established, the handler answers
  415 exactly when the \<open>Content-Type\<close> contains neither \<open>application/json\<close> nor
  \<open>multipart/form-data\<close> (whatever the body), 400 exactly when it contains
  \<open>multipart/form-data\<close> but not \<open>application/json\<close> and the form payload cannot be
  parsed, 201 with what was created exactly when the body is parsed and
  \<open>Event.create\<close> succeeds, and 500 in every other case: a JSON body that cannot be
  parsed, and every failure of \<open>Event.create\<close>, so also every validation or
  normalization failure. For a body that is one candidate record, \<open>Event.create\<close>
  succeeds or fails as the creation of that record does, and what was created is its
  document.
\<close>

theorem POST_status_amended:
  "(\<not> connect_ok w \<longrightarrow>
      POST w st req = (\<lparr>status = 500, payload = InternalServerError ConnectionError\<rparr>, st))
   \<and> (connect_ok w \<longrightarrow>
        (status (fst (POST w st req)) = 415 \<longleftrightarrow> \<not> is_json req \<and> \<not> is_multipart req)
      \<and> (status (fst (POST w st req)) = 400 \<longleftrightarrow>
           \<not> is_json req \<and> is_multipart req \<and> form req = None)
      \<and> (status (fst (POST w st req)) = 201 \<longleftrightarrow>
           (\<exists>data c. request_body req = Some data \<and> fst (Event_create_body w st data) = Inr c))
      \<and> (status (fst (POST w st req)) = 500 \<longleftrightarrow>
           (is_json req \<and> json req = None)
           \<or> (\<exists>data e. request_body req = Some data \<and> fst (Event_create_body w st data) = Inl e))
      \<and> (\<forall>data c. request_body req = Some data \<and> fst (Event_create_body w st data) = Inr c \<longrightarrow>
            fst (POST w st req) = \<lparr>status = 201, payload = Created c\<rparr>)
      \<and> (\<forall>data e. request_body req = Some data \<and> fst (Event_create_body w st data) = Inl e \<longrightarrow>
            fst (POST w st req) = \<lparr>status = 500, payload = InternalServerError e\<rparr>)
      \<and> (\<forall>x. fst (Event_create_body w st (Object x)) =
            (case fst (Event_create w st x) of Inl e \<Rightarrow> Inl e | Inr d \<Rightarrow> Inr (Object (props d)))))"
proof (cases "connect_ok w")
  case False
  then show ?thesis by (simp add: POST_unreachable)
next
  case True
  have o: "\<forall>x. fst (Event_create_body w st (Object x)) =
            (case fst (Event_create w st x) of Inl e \<Rightarrow> Inl e | Inr d \<Rightarrow> Inr (Object (props d)))"
    by (simp add: create_body_object)
  have "(status (fst (POST w st req)) = 415 \<longleftrightarrow> \<not> is_json req \<and> \<not> is_multipart req)
      \<and> (status (fst (POST w st req)) = 400 \<longleftrightarrow>
           \<not> is_json req \<and> is_multipart req \<and> form req = None)
      \<and> (status (fst (POST w st req)) = 201 \<longleftrightarrow>
           (\<exists>data c. request_body req = Some data \<and> fst (Event_create_body w st data) = Inr c))
      \<and> (status (fst (POST w st req)) = 500 \<longleftrightarrow>
           (is_json req \<and> json req = None)
           \<or> (\<exists>data e. request_body req = Some data \<and> fst (Event_create_body w st data) = Inl e))
      \<and> (\<forall>data c. request_body req = Some data \<and> fst (Event_create_body w st data) = Inr c \<longrightarrow>
            fst (POST w st req) = \<lparr>status = 201, payload = Created c\<rparr>)
      \<and> (\<forall>data e. request_body req = Some data \<and> fst (Event_create_body w st data) = Inl e \<longrightarrow>
            fst (POST w st req) = \<lparr>status = 500, payload = InternalServerError e\<rparr>)"
    unfolding POST_reached [OF True] request_body_def
    by (auto split: option.splits sum.splits)
  with True o show ?thesis by blast
qed

text \<open>
  C8. The get-by-slug handler answers 500 when the connection or the query fails;
  otherwise 404, with an error body and no document, when no stored event has the slug
  of the path, and 200 with a stored document of that slug when there is one.
\<close>

theorem GET_slug_status:
  "(\<not> connect_ok w \<or> \<not> query_ok w \<longrightarrow> GET_slug w st slug = \<lparr>status = 500, payload = FailedToFetch\<rparr>)
   \<and> (connect_ok w \<and> query_ok w \<and> (\<forall>f\<in>set st. f Slug \<noteq> Some (Str slug)) \<longrightarrow>
        GET_slug w st slug = \<lparr>status = 404, payload = NotFound\<rparr>)
   \<and> (connect_ok w \<and> query_ok w \<and> (\<exists>f\<in>set st. f Slug = Some (Str slug)) \<longrightarrow>
        (\<exists>f\<in>set st. f Slug = Some (Str slug)
           \<and> GET_slug w st slug = \<lparr>status = 200, payload = Found f\<rparr>))"
proof -
  have 1: "\<not> connect_ok w \<or> \<not> query_ok w \<longrightarrow> GET_slug w st slug = \<lparr>status = 500, payload = FailedToFetch\<rparr>"
    by (auto simp: GET_slug_def)
  have 2: "connect_ok w \<and> query_ok w \<and> (\<forall>f\<in>set st. f Slug \<noteq> Some (Str slug)) \<longrightarrow>
        GET_slug w st slug = \<lparr>status = 404, payload = NotFound\<rparr>"
  proof
    assume a: "connect_ok w \<and> query_ok w \<and> (\<forall>f\<in>set st. f Slug \<noteq> Some (Str slug))"
    then have "find (\<lambda>f. f Slug = Some (Str slug)) st = None"
      by (simp add: find_None_iff)
    with a show "GET_slug w st slug = \<lparr>status = 404, payload = NotFound\<rparr>"
      by (simp add: GET_slug_def)
  qed
  have 3: "connect_ok w \<and> query_ok w \<and> (\<exists>f\<in>set st. f Slug = Some (Str slug)) \<longrightarrow>
        (\<exists>f\<in>set st. f Slug = Some (Str slug)
           \<and> GET_slug w st slug = \<lparr>status = 200, payload = Found f\<rparr>)"
  proof
    assume a: "connect_ok w \<and> query_ok w \<and> (\<exists>f\<in>set st. f Slug = Some (Str slug))"
    then obtain f where f: "find (\<lambda>f. f Slug = Some (Str slug)) st = Some f"
      by (cases "find (\<lambda>f. f Slug = Some (Str slug)) st") (auto simp: find_None_iff)
    then have "f \<in> set st" "f Slug = Some (Str slug)"
      by (auto simp: find_Some_iff)
    moreover have "GET_slug w st slug = \<lparr>status = 200, payload = Found f\<rparr>"
      using a f by (simp add: GET_slug_def)
    ultimately show "\<exists>f\<in>set st. f Slug = Some (Str slug)
           \<and> GET_slug w st slug = \<lparr>status = 200, payload = Found f\<rparr>"
      by blast
  qed
  from 1 2 3 show ?thesis by blast
qed

lemma GET_list_cases:
  "GET_list w st =
     (if connect_ok w \<and> query_ok w \<and> st = [] then \<lparr>status = 200, payload = Listing []\<rparr>
      else \<lparr>status = 500, payload = FailedToFetch\<rparr>)"
  by (cases st) (simp_all add: GET_list_def find_populate_def populate_bookings_def)

text \<open>
  C9. The list handler answers 200 with the stored events only when there is none: the
  query asks to populate \<open>bookings\<close>, a path the schema does not have, and the library
  rejects that as soon as \<open>find\<close> has found a document (\<open>GET_list_cases\<close>). With the
  database at work and one event stored the handler answers 500, not the 200 with the
  array of the stored events of the claim.
\<close>

theorem GET_list_stored_event_fails:
  "connect_ok healthy \<and> query_ok healthy
   \<and> GET_list healthy [stored_event] = \<lparr>status = 500, payload = FailedToFetch\<rparr>"
  by (simp add: GET_list_cases healthy_def)

section \<open>Properties of the connection cache\<close>

lemma cache_inv_fresh: "cache_inv fresh"
  by (simp add: cache_inv_def fresh_def)

lemma singleton_update: "length xs = 1 \<Longrightarrow> xs[0 := v] = [v]"
  by (cases xs) auto

lemma singleton_nth: "length xs = 1 \<Longrightarrow> xs ! 0 = v \<Longrightarrow> xs = [v]"
  by (cases xs) auto

lemma cache_inv_step:
  assumes "cache_inv s" "step s e = (s', ob)"
  shows "cache_inv s'"
proof (cases e)
  case Call
  with assms show ?thesis
    by (auto simp: cache_inv_def split: option.splits)
next
  case (Settle i r)
  show ?thesis
  proof (cases "i < length (promises s) \<and> promises s ! i = Pending")
    case False
    with assms Settle show ?thesis by auto
  next
    case True
    with assms(1) have l: "length (promises s) = 1" "i = 0" "promise (cached s) = Some 0"
      by (auto simp: cache_inv_def)
    with True have "promises s = [Pending]" by (simp add: singleton_nth)
    with assms(1) have "conn (cached s) = None"
      by (cases "conn (cached s)") (auto simp: cache_inv_def)
    moreover from assms(2) Settle True l have "cached s' = cached s" "length (promises s') = 1"
      by auto
    ultimately show ?thesis using l(3) by (simp add: cache_inv_def)
  qed
next
  case (Resume i)
  show ?thesis
  proof (cases "i < length (promises s)")
    case False
    with assms Resume show ?thesis by auto
  next
    case True
    with assms(1) have l: "length (promises s) = 1" "i = 0" "promise (cached s) = Some 0"
      by (auto simp: cache_inv_def)
    show ?thesis
    proof (cases "promises s ! 0")
      case Pending
      with assms Resume True l show ?thesis by auto
    next
      case (Resolved h)
      with l have "promises s = [Resolved h]" by (simp add: singleton_nth)
      moreover from assms(2) Resume True l Resolved
      have "s' = s\<lparr>cached := (cached s)\<lparr>conn := Some h\<rparr>\<rparr>" by auto
      ultimately show ?thesis using l by (simp add: cache_inv_def)
    next
      case Rejected
      with assms Resume True l show ?thesis by auto
    qed
  qed
qed

lemma step_observation:
  assumes "cache_inv s" "step s e = (s', ob)"
  shows "(ob = Awaiting i \<longrightarrow> i = 0)
    \<and> (ob = Returned h \<longrightarrow> promises s' = [Resolved h] \<and> conn (cached s') = Some h)"
proof (cases e)
  case Call
  with assms show ?thesis
    by (auto simp: cache_inv_def split: option.splits)
next
  case (Settle j r)
  with assms show ?thesis by (auto split: if_splits)
next
  case (Resume j)
  show ?thesis
  proof (cases "j < length (promises s)")
    case False
    with assms Resume show ?thesis by auto
  next
    case True
    with assms(1) have l: "length (promises s) = 1" "j = 0"
      by (auto simp: cache_inv_def)
    show ?thesis
    proof (cases "promises s ! 0")
      case Pending
      with assms Resume True l show ?thesis by auto
    next
      case (Resolved h')
      with l have "promises s = [Resolved h']" by (simp add: singleton_nth)
      with assms(2) Resume True l Resolved show ?thesis by auto
    next
      case Rejected
      with assms Resume True l show ?thesis by auto
    qed
  qed
qed

lemma step_established:
  assumes "promises s = [Resolved h]" "conn (cached s) = Some h" "step s e = (s', ob)"
  shows "promises s' = [Resolved h] \<and> conn (cached s') = Some h"
proof (cases e)
  case Call
  with assms show ?thesis by auto
next
  case (Settle j r)
  with assms show ?thesis by (cases j) (auto split: if_splits)
next
  case (Resume j)
  with assms show ?thesis by (cases j) (auto split: if_splits)
qed

lemma run_established:
  "promises s = [Resolved h] \<Longrightarrow> conn (cached s) = Some h \<Longrightarrow> run s es = (s', obs) \<Longrightarrow>
     promises s' = [Resolved h] \<and> conn (cached s') = Some h"
proof (induction es arbitrary: s s' obs)
  case Nil
  then show ?case by simp
next
  case (Cons e es)
  obtain s1 ob where st: "step s e = (s1, ob)" by (cases "step s e")
  obtain s2 obs2 where r: "run s1 es = (s2, obs2)" by (cases "run s1 es")
  from Cons.prems(3) st r have "s' = s2" by simp
  moreover from step_established [OF Cons.prems(1,2) st]
  have "promises s1 = [Resolved h]" "conn (cached s1) = Some h" by simp_all
  from Cons.IH [OF this r] have "promises s2 = [Resolved h] \<and> conn (cached s2) = Some h" .
  ultimately show ?case by simp
qed

lemma run_invariant:
  "cache_inv s \<Longrightarrow> run s es = (s', obs) \<Longrightarrow>
     cache_inv s'
     \<and> (\<forall>i. Awaiting i \<in> set obs \<longrightarrow> i = 0)
     \<and> (\<forall>h. Returned h \<in> set obs \<longrightarrow> promises s' = [Resolved h] \<and> conn (cached s') = Some h)"
proof (induction es arbitrary: s s' obs)
  case Nil
  then show ?case by simp
next
  case (Cons e es)
  obtain s1 ob where st: "step s e = (s1, ob)" by (cases "step s e")
  obtain s2 obs2 where r: "run s1 es = (s2, obs2)" by (cases "run s1 es")
  from Cons.prems(2) st r have eq: "s' = s2" "obs = ob # obs2" by simp_all
  have i1: "cache_inv s1" using cache_inv_step [OF Cons.prems(1) st] .
  from Cons.IH [OF i1 r] have ih: "cache_inv s2" "\<forall>i. Awaiting i \<in> set obs2 \<longrightarrow> i = 0"
      "\<forall>h. Returned h \<in> set obs2 \<longrightarrow> promises s2 = [Resolved h] \<and> conn (cached s2) = Some h"
    by simp_all
  have a: "ob = Awaiting i \<longrightarrow> i = 0" for i
    using step_observation [OF Cons.prems(1) st] by blast
  have b: "ob = Returned h \<longrightarrow> promises s2 = [Resolved h] \<and> conn (cached s2) = Some h" for h
  proof
    assume "ob = Returned h"
    then have "promises s1 = [Resolved h]" "conn (cached s1) = Some h"
      using step_observation [OF Cons.prems(1) st] by blast+
    from run_established [OF this r] show "promises s2 = [Resolved h] \<and> conn (cached s2) = Some h" .
  qed
  show ?case
    unfolding eq using ih a b by auto
qed

lemma cache_inv_attempts: "cache_inv s \<Longrightarrow> length (promises s) \<le> 1"
  by (auto simp: cache_inv_def)

lemma run_first_call:
  assumes "run (fresh :: 'h process) (Call # es) = (s, obs)"
  shows "length (promises s) = 1"
proof -
  obtain s1 ob where st: "step (fresh :: 'h process) Call = (s1, ob)"
    by (cases "step (fresh :: 'h process) Call")
  obtain s2 obs2 where r: "run s1 es = (s2, obs2)" by (cases "run s1 es")
  from assms st r have eq: "s = s2" by simp
  from st have p: "length (promises s1) = 1" by (auto simp: fresh_def)
  have "cache_inv s1" using cache_inv_step [OF cache_inv_fresh st] .
  from run_invariant [OF this r] have i2: "cache_inv s2" by simp
  have mono: "run x ys = (y, os) \<Longrightarrow> length (promises x) \<le> length (promises y)" for x y :: "'h process" and ys os
  proof (induction ys arbitrary: x y os)
    case Nil
    then show ?case by simp
  next
    case (Cons e ys)
    obtain x1 o1 where s: "step x e = (x1, o1)" by (cases "step x e")
    obtain x2 os2 where rr: "run x1 ys = (x2, os2)" by (cases "run x1 ys")
    from Cons.prems s rr have "y = x2" by simp
    moreover have "length (promises x) \<le> length (promises x1)"
      using s by (cases e) (auto split: option.splits if_splits settled.splits)
    moreover have "length (promises x1) \<le> length (promises x2)" using Cons.IH [OF rr] .
    ultimately show ?case by simp
  qed
  from mono [OF r] p have "1 \<le> length (promises s2)" by simp
  with cache_inv_attempts [OF i2] show ?thesis unfolding eq by simp
qed

text \<open>
  C10. Whatever the callers and the driver do, in whatever order (\<open>es\<close>), starting from
  the fresh cache: \<open>mongoose.connect\<close> is called at most once, and exactly once if there
  is a call at all; every caller that has to wait awaits that one attempt, also while it
  is pending and after it was rejected; every handle returned is the handle that attempt
  resolved with, so all returned handles are the same, and it is the one memoized in the
  cache. The module cannot be loaded when \<open>MONGODB_URI\<close> is undefined or empty.
\<close>

theorem single_connection_attempt:
  "(run fresh es = (s, obs) \<longrightarrow>
      length (promises s) \<le> 1
      \<and> (\<forall>i. Awaiting i \<in> set obs \<longrightarrow> i = 0)
      \<and> (\<forall>h. Returned h \<in> set obs \<longrightarrow> promises s = [Resolved h] \<and> conn (cached s) = Some h)
      \<and> (\<forall>h h'. Returned h \<in> set obs \<and> Returned h' \<in> set obs \<longrightarrow> h = h'))
   \<and> (run fresh (Call # es) = (s, obs) \<longrightarrow> length (promises s) = 1)
   \<and> load_module None g = Inl MissingEnvironmentVariable
   \<and> load_module (Some []) g = Inl MissingEnvironmentVariable"
proof -
  have 1: "run fresh es = (s, obs) \<longrightarrow>
      length (promises s) \<le> 1
      \<and> (\<forall>i. Awaiting i \<in> set obs \<longrightarrow> i = 0)
      \<and> (\<forall>h. Returned h \<in> set obs \<longrightarrow> promises s = [Resolved h] \<and> conn (cached s) = Some h)
      \<and> (\<forall>h h'. Returned h \<in> set obs \<and> Returned h' \<in> set obs \<longrightarrow> h = h')"
  proof
    assume r: "run fresh es = (s, obs)"
    from run_invariant [OF cache_inv_fresh r]
    have i: "cache_inv s" "\<forall>i. Awaiting i \<in> set obs \<longrightarrow> i = 0"
        "\<forall>h. Returned h \<in> set obs \<longrightarrow> promises s = [Resolved h] \<and> conn (cached s) = Some h"
      by simp_all
    have "\<forall>h h'. Returned h \<in> set obs \<and> Returned h' \<in> set obs \<longrightarrow> h = h'"
    proof (intro allI impI)
      fix h h' assume "Returned h \<in> set obs \<and> Returned h' \<in> set obs"
      with i(3) have "promises s = [Resolved h]" "promises s = [Resolved h']" by blast+
      then show "h = h'" by simp
    qed
    with i cache_inv_attempts [OF i(1)] show "length (promises s) \<le> 1
      \<and> (\<forall>i. Awaiting i \<in> set obs \<longrightarrow> i = 0)
      \<and> (\<forall>h. Returned h \<in> set obs \<longrightarrow> promises s = [Resolved h] \<and> conn (cached s) = Some h)
      \<and> (\<forall>h h'. Returned h \<in> set obs \<and> Returned h' \<in> set obs \<longrightarrow> h = h')"
      by blast
  qed
  have 2: "run fresh (Call # es) = (s, obs) \<longrightarrow> length (promises s) = 1"
    using run_first_call by blast
  have 3: "load_module None g = Inl MissingEnvironmentVariable"
      "load_module (Some []) g = Inl MissingEnvironmentVariable"
    by (simp_all add: load_module_def)
  from 1 2 3 show ?thesis by blast
qed

section \<open>Witnesses\<close>

theorem recheck_first_violation_witness:
  "recheck incomplete_doc = Inl (FieldRequired Image)
   \<and> requiredStrings ! 3 = Image
   \<and> \<not> nonEmptyString (props incomplete_doc Image)
   \<and> \<not> nonEmptyString (props incomplete_doc Venue)
   \<and> nonEmptyString (props incomplete_doc Title)
   \<and> nonEmptyString (props incomplete_doc Description)
   \<and> nonEmptyString (props incomplete_doc Overview)
   \<and> hook_message (FieldRequired Image) =
        Some (''Field '' @ [CHR 0x22] @ ''image'' @ [CHR 0x22] @ '' is required and cannot be empty'')
   \<and> recheck blank_title_doc = Inl (FieldRequired Title)
   \<and> \<not> nonEmptyString (props blank_title_doc Title)
   \<and> \<not> nonEmptyString (props blank_title_doc Image)"
proof -
  have r: "requiredStrings ! 0 = Title" "requiredStrings ! 1 = Description"
      "requiredStrings ! 2 = Overview" "requiredStrings ! 3 = Image" "3 < length requiredStrings"
      "0 < length requiredStrings"
    by (simp_all add: requiredStrings_def)
  have n: "\<not> nonEmptyString (props incomplete_doc Image)" "\<not> nonEmptyString (props incomplete_doc Venue)"
      "nonEmptyString (props incomplete_doc Title)" "nonEmptyString (props incomplete_doc Description)"
      "nonEmptyString (props incomplete_doc Overview)"
    by code_simp+
  have b: "\<not> nonEmptyString (props blank_title_doc Title)" "\<not> nonEmptyString (props blank_title_doc Image)"
    by code_simp+
  have "\<forall>j<3. nonEmptyString (props incomplete_doc (requiredStrings ! j))"
  proof (intro allI impI)
    fix j :: nat assume "j < 3"
    then have "j = 0 \<or> j = 1 \<or> j = 2" by auto
    with r n show "nonEmptyString (props incomplete_doc (requiredStrings ! j))" by auto
  qed
  with r n have "\<exists>i<length requiredStrings. FieldRequired Image = FieldRequired (requiredStrings ! i)
      \<and> \<not> nonEmptyString (props incomplete_doc (requiredStrings ! i))
      \<and> (\<forall>j<i. nonEmptyString (props incomplete_doc (requiredStrings ! j)))"
    by (intro exI [of _ 3]) simp
  then have i: "recheck incomplete_doc = Inl (FieldRequired Image)"
    using recheck_first_violation [of _ _ incomplete_doc "FieldRequired Image"] by blast
  from r b have "\<exists>i<length requiredStrings. FieldRequired Title = FieldRequired (requiredStrings ! i)
      \<and> \<not> nonEmptyString (props blank_title_doc (requiredStrings ! i))
      \<and> (\<forall>j<i. nonEmptyString (props blank_title_doc (requiredStrings ! j)))"
    by (intro exI [of _ 0]) simp
  then have t: "recheck blank_title_doc = Inl (FieldRequired Title)"
    using recheck_first_violation [of _ _ blank_title_doc "FieldRequired Title"] by blast
  have "key_name Image = ''image''"
    using recheck_first_violation [of _ _ incomplete_doc "FieldRequired Image" Image] r
    by (simp add: requiredStrings_def)
  then have m: "hook_message (FieldRequired Image) =
        Some (''Field '' @ [CHR 0x22] @ ''image'' @ [CHR 0x22] @ '' is required and cannot be empty'')"
    using recheck_first_violation [of _ _ incomplete_doc "FieldRequired Image" Image] by simp
  from i r n m t b show ?thesis by simp
qed

theorem POST_status_amended_witness:
  "connect_ok healthy
   \<and> status (fst (POST healthy [] text_plain)) = 415
   \<and> \<not> connect_ok (healthy\<lparr>connect_ok := False\<rparr>)
   \<and> POST (healthy\<lparr>connect_ok := False\<rparr>) [] (json_request [''Talk 1'']) =
       (\<lparr>status = 500, payload = InternalServerError ConnectionError\<rparr>, [])
   \<and> request_body (json_request [''  '']) = Some (Object (sample_event [''  '']))
   \<and> fst (Event_create_body healthy [] (Object (sample_event [''  '']))) = Inl (ValidationError {Agenda})
   \<and> fst (POST healthy [] (json_request [''  ''])) =
       \<lparr>status = 500, payload = InternalServerError (ValidationError {Agenda})\<rparr>"
proof -
  have c: "connect_ok healthy" "\<not> connect_ok (healthy\<lparr>connect_ok := False\<rparr>)"
    by (simp_all add: healthy_def)
  have a: "status (fst (POST healthy [] text_plain)) = 415"
    using POST_status_amended [of healthy "[]" text_plain] c(1) text_plain_unsupported by blast
  have b: "POST (healthy\<lparr>connect_ok := False\<rparr>) [] (json_request [''Talk 1'']) =
       (\<lparr>status = 500, payload = InternalServerError ConnectionError\<rparr>, [])"
    using POST_status_amended [of "healthy\<lparr>connect_ok := False\<rparr>" "[]" "json_request [''Talk 1'']"] c(2)
    by blast
  have "is_json (json_request [''  ''])" by code_simp
  then have d: "request_body (json_request [''  '']) = Some (Object (sample_event [''  '']))"
    by (simp add: request_body_def json_request_def)
  have e: "fst (Event_create_body healthy [] (Object (sample_event [''  '']))) = Inl (ValidationError {Agenda})"
    by (simp add: Event_create_body_def create_example_blank)
  have f: "fst (POST healthy [] (json_request [''  ''])) =
       \<lparr>status = 500, payload = InternalServerError (ValidationError {Agenda})\<rparr>"
    using POST_status_amended [of healthy "[]" "json_request [''  '']"] c(1) d e by blast
  from c a b d e f show ?thesis by blast
qed


theorem GET_slug_status_witness:
  "connect_ok healthy \<and> query_ok healthy
   \<and> GET_slug healthy [stored_event] ''missing'' = \<lparr>status = 404, payload = NotFound\<rparr>
   \<and> GET_slug healthy [stored_event] ''cloud-next-2026'' = \<lparr>status = 200, payload = Found stored_event\<rparr>
   \<and> \<not> query_ok (healthy\<lparr>query_ok := False\<rparr>)
   \<and> GET_slug (healthy\<lparr>query_ok := False\<rparr>) [stored_event] ''cloud-next-2026'' =
       \<lparr>status = 500, payload = FailedToFetch\<rparr>"
proof -
  have c: "connect_ok healthy" "query_ok healthy" "\<not> query_ok (healthy\<lparr>query_ok := False\<rparr>)"
    by (simp_all add: healthy_def)
  have s: "stored_event Slug = Some (Str ''cloud-next-2026'')"
    by (simp add: stored_event_def)
  then have "\<forall>f\<in>set [stored_event]. f Slug \<noteq> Some (Str ''missing'')" by simp
  then have a: "GET_slug healthy [stored_event] ''missing'' = \<lparr>status = 404, payload = NotFound\<rparr>"
    using GET_slug_status [of healthy "[stored_event]" "''missing''"] c by blast
  from s have "\<exists>f\<in>set [stored_event]. f Slug = Some (Str ''cloud-next-2026'')" by simp
  then have "\<exists>f\<in>set [stored_event]. f Slug = Some (Str ''cloud-next-2026'')
      \<and> GET_slug healthy [stored_event] ''cloud-next-2026'' = \<lparr>status = 200, payload = Found f\<rparr>"
    using GET_slug_status [of healthy "[stored_event]" "''cloud-next-2026''"] c by blast
  then have b: "GET_slug healthy [stored_event] ''cloud-next-2026'' =
      \<lparr>status = 200, payload = Found stored_event\<rparr>"
    by simp
  have d: "GET_slug (healthy\<lparr>query_ok := False\<rparr>) [stored_event] ''cloud-next-2026'' =
       \<lparr>status = 500, payload = FailedToFetch\<rparr>"
    using GET_slug_status [of "healthy\<lparr>query_ok := False\<rparr>" "[stored_event]" "''cloud-next-2026''"] c(3)
    by blast
  from c a b d show ?thesis by blast
qed

theorem single_connection_attempt_witness:
  "run fresh two_callers =
     (established, [Awaiting 0, Awaiting 0, Silent, Returned 7, Returned 7, Returned 7])
   \<and> length (promises established) = 1
   \<and> conn (cached established) = Some 7"
proof -
  have r: "run fresh two_callers =
     (established, [Awaiting 0, Awaiting 0, Silent, Returned 7, Returned 7, Returned 7])"
    by (simp add: two_callers_def established_def fresh_def)
  have t: "two_callers = Call # tl two_callers" by (simp add: two_callers_def)
  have "Returned 7 \<in> set [Awaiting 0, Awaiting 0, Silent, Returned (7::nat), Returned 7, Returned 7]"
    by simp
  then have "promises established = [Resolved 7] \<and> conn (cached established) = Some 7"
    using single_connection_attempt [of two_callers established
        "[Awaiting 0, Awaiting 0, Silent, Returned 7, Returned 7, Returned 7]"] r
    by blast
  moreover have "run fresh (Call # tl two_callers) =
     (established, [Awaiting 0, Awaiting 0, Silent, Returned 7, Returned 7, Returned 7])"
    using r t by metis
  then have "length (promises established) = 1"
    using single_connection_attempt [of "tl two_callers" established
        "[Awaiting 0, Awaiting 0, Silent, Returned 7, Returned 7, Returned 7]"]
    by blast
  ultimately show ?thesis using r by simp
qed

end
